theory Spec2Isabelle
  imports Main "HOL-Library.AList"
begin

section \<open>Values\<close>

text \<open>
  JSON values as \<open>JSON.parse\<close> produces them. Numbers are kept as integers (no claim
  depends on fractions), parsed objects have one entry per key. A JavaScript value of type
  \<open>unknown\<close> that may also be \<open>undefined\<close> is a \<open>json option\<close>, with \<open>None\<close> for
  \<open>undefined\<close>. A \<open>Record<string, unknown>\<close> is an association list in key order whose
  entries may hold \<open>undefined\<close>; a \<open>Map\<close> is an association list in insertion order.
  Assignment \<open>r[k] = v\<close> and \<open>Map.set\<close> are \<open>AList.update\<close>: they overwrite in place or
  append. Only own properties are modelled, not the prototype chain.
\<close>

datatype json =
    JNull
  | JBool bool
  | JNum int
  | JStr string
  | JArr "json list"
  | JObj "(string \<times> json) list"

type_synonym jsvalue = "json option"
type_synonym jsrecord = "(string \<times> jsvalue) list"
type_synonym 'v jsmap = "(string \<times> 'v) list"

text \<open>\<open>r[k]\<close> on a record: a missing key and a key holding \<open>undefined\<close> both read as \<open>undefined\<close>.\<close>

definition rec_get :: "jsrecord \<Rightarrow> string \<Rightarrow> jsvalue" where
  "rec_get r k = (case map_of r k of None \<Rightarrow> None | Some v \<Rightarrow> v)"

definition rec_set :: "string \<Rightarrow> jsvalue \<Rightarrow> jsrecord \<Rightarrow> jsrecord" where
  "rec_set k v r = AList.update k v r"

definition has_key :: "jsrecord \<Rightarrow> string \<Rightarrow> bool" where
  "has_key r k = (map_of r k \<noteq> None)"

text \<open>\<open>x || 0\<close> on a number that may be \<open>undefined\<close>, and \<open>s || ''\<close> on a string.\<close>

fun or0 :: "int option \<Rightarrow> int" where
  "or0 None = 0"
| "or0 (Some k) = k"

fun or_empty :: "string option \<Rightarrow> string" where
  "or_empty None = []"
| "or_empty (Some s) = s"

section \<open>Flow definitions (shared/types/flow.ts)\<close>

datatype FlowStatus = Draft | Published | Archived

datatype MappingSource =
    FlowInput "string option"
  | BlockOutput "string option" "string option"
  | Constant jsvalue
  | Expression "string option"

record InputMapping =
  targetInput :: string
  source :: MappingSource

record FlowBlockConfig =
  timeout :: "nat option"
  retryCount :: "nat option"
  continueOnError :: "bool option"

record FlowBlock =
  fb_id :: string
  fb_blockId :: string
  inputMappings :: "InputMapping list"
  config :: "FlowBlockConfig option"

record Connection =
  conn_id :: string
  fromBlockId :: string
  toBlockId :: string

record FlowInputDefinition =
  fi_name :: string
  fi_required :: bool
  fi_defaultValue :: jsvalue

record FlowOutputDefinition =
  fo_name :: string
  sourceBlockId :: string
  sourceOutput :: string

record FlowConfig =
  fc_timeout :: "nat option"
  fc_parallel :: "bool option"
  fc_errorHandling :: "string option"

record Flow =
  flow_id :: "string option"
  slug :: string
  version :: nat
  blocks :: "FlowBlock list"
  connections :: "Connection list"
  fl_inputs :: "FlowInputDefinition list"
  fl_outputs :: "FlowOutputDefinition list"
  fl_config :: FlowConfig
  fl_status :: FlowStatus

section \<open>Topological sort (api/flows/index.ts, topologicalSort)\<close>

text \<open>
  The two maps \<open>graph\<close> and \<open>inDegree\<close> are built by one loop over the blocks and one over
  the connections. \<open>graph.get(from)?.push(to)\<close> does nothing when \<open>from\<close> is not a key.
\<close>

definition init_block :: "FlowBlock \<Rightarrow> string list jsmap \<times> int jsmap \<Rightarrow> string list jsmap \<times> int jsmap" where
  "init_block block = (\<lambda>(graph, inDegree).
     (AList.update (fb_id block) [] graph, AList.update (fb_id block) 0 inDegree))"

definition add_connection :: "Connection \<Rightarrow> string list jsmap \<times> int jsmap \<Rightarrow> string list jsmap \<times> int jsmap" where
  "add_connection conn = (\<lambda>(graph, inDegree).
     ((case map_of graph (fromBlockId conn) of
         None \<Rightarrow> graph
       | Some ns \<Rightarrow> AList.update (fromBlockId conn) (ns @ [toBlockId conn]) graph),
      AList.update (toBlockId conn) (or0 (map_of inDegree (toBlockId conn)) + 1) inDegree))"

text \<open>The initial queue: the keys of \<open>inDegree\<close> whose degree is zero, in insertion order.\<close>

definition zero_keys :: "int jsmap \<Rightarrow> string list" where
  "zero_keys inDegree = map fst (filter (\<lambda>(blockId, degree). degree = 0) inDegree)"

text \<open>The inner \<open>for\<close> loop over the successors of the block just emitted.\<close>

fun relax :: "string list \<Rightarrow> int jsmap \<times> string list \<Rightarrow> int jsmap \<times> string list" where
  "relax [] (inDegree, queue) = (inDegree, queue)"
| "relax (next # rest) (inDegree, queue) =
     (let newDegree = or0 (map_of inDegree next) - 1
      in relax rest (AList.update next newDegree inDegree,
                     if newDegree = 0 then queue @ [next] else queue))"

definition successors :: "string list jsmap \<Rightarrow> string \<Rightarrow> string list" where
  "successors graph current = (case map_of graph current of None \<Rightarrow> [] | Some ns \<Rightarrow> ns)"

definition pos_count :: "int jsmap \<Rightarrow> nat" where
  "pos_count inDegree = length (filter (\<lambda>(k, d). 0 < d) inDegree)"

lemma pos_count_update:
  "pos_count (AList.update n (or0 (map_of d n) - 1) d) + (if or0 (map_of d n) = 1 then 1 else 0) =
     pos_count d"
proof (induction d)
  case Nil
  show ?case by (simp add: pos_count_def)
next
  case (Cons p d)
  obtain k v where p: "p = (k, v)" by (cases p)
  show ?case
  proof (cases "k = n")
    case True
    then show ?thesis using p by (auto simp: pos_count_def)
  next
    case False
    then show ?thesis using p Cons.IH by (auto simp: pos_count_def split: if_splits)
  qed
qed

lemma relax_measure:
  "relax ns (d, q) = (d', q') \<Longrightarrow> length q' + pos_count d' = length q + pos_count d"
proof (induction ns arbitrary: d q)
  case Nil
  then show ?case by simp
next
  case (Cons n ns)
  let ?nd = "or0 (map_of d n) - 1"
  from Cons.prems have r: "relax ns (AList.update n ?nd d, if ?nd = 0 then q @ [n] else q) = (d', q')"
    by (simp add: Let_def)
  from Cons.IH [OF r] show ?case
    using pos_count_update [of n d] by (auto split: if_splits)
qed

text \<open>The \<open>while\<close> loop of Kahn's algorithm.\<close>

function kahn :: "string list jsmap \<Rightarrow> int jsmap \<Rightarrow> string list \<Rightarrow> string list \<Rightarrow> string list" where
  "kahn graph inDegree [] result = result"
| "kahn graph inDegree (current # queue) result =
     (case relax (successors graph current) (inDegree, queue) of
        (inDegree', queue') \<Rightarrow> kahn graph inDegree' queue' (result @ [current]))"
  by pat_completeness auto
termination
  apply (relation "measure (\<lambda>(graph, inDegree, queue, result). length queue + pos_count inDegree)")
   apply simp
  subgoal for graph inDegree current queue result x y
    using relax_measure [of "successors graph current" inDegree queue x y] by simp
  done

definition topologicalSort :: "FlowBlock list \<Rightarrow> Connection list \<Rightarrow> string list" where
  "topologicalSort blks conns =
     (case fold add_connection conns (fold init_block blks ([], [])) of
        (graph, inDegree) \<Rightarrow> kahn graph inDegree (zero_keys inDegree) [])"

section \<open>Output projection paths (api/flows/index.ts, extractJsonPath)\<close>

text \<open>The character classes \<open>\w\<close> and \<open>\d\<close> of a JavaScript regular expression.\<close>

definition is_word_char :: "char \<Rightarrow> bool" where
  "is_word_char c =
     (let n = (of_char c :: nat)
      in (48 \<le> n \<and> n \<le> 57) \<or> (65 \<le> n \<and> n \<le> 90) \<or> n = 95 \<or> (97 \<le> n \<and> n \<le> 122))"

definition is_digit_char :: "char \<Rightarrow> bool" where
  "is_digit_char c = (let n = (of_char c :: nat) in 48 \<le> n \<and> n \<le> 57)"

text \<open>\<open>path.replace(/^\$\.?/, '')\<close>: a leading \<open>$\<close> and the dot after it, if any, are dropped.\<close>

definition strip_root :: "string \<Rightarrow> string" where
  "strip_root path =
     (case path of
        [] \<Rightarrow> []
      | c # r \<Rightarrow>
          if c = CHR ''$'' then (case r of [] \<Rightarrow> [] | c2 # r2 \<Rightarrow> if c2 = CHR ''.'' then r2 else r)
          else path)"

text \<open>\<open>s.split(sep)\<close> for a one-character separator: never empty, \<open>''.split('.')\<close> is \<open>['']\<close>.\<close>

fun split_on :: "char \<Rightarrow> string \<Rightarrow> string list" where
  "split_on sep [] = [[]]"
| "split_on sep (c # cs) =
     (if c = sep then [] # split_on sep cs
      else (case split_on sep cs of [] \<Rightarrow> [[c]] | p # ps \<Rightarrow> (c # p) # ps))"

text \<open>\<open>parseInt(index, 10)\<close> on a string of decimal digits.\<close>

definition parseInt10 :: "string \<Rightarrow> nat" where
  "parseInt10 ds = foldl (\<lambda>a c. 10 * a + (of_char c - 48)) 0 ds"

text \<open>
  \<open>part.match(/^(\w+)\[(\d+)\]$/)\<close>: the two groups, or \<open>None\<close> for \<open>null\<close>. Neither \<open>[\<close> nor
  \<open>]\<close> is a word character or a digit, so the greedy split is the only possible match.
\<close>

definition match_array_index :: "string \<Rightarrow> (string \<times> string) option" where
  "match_array_index part =
     (let key = takeWhile is_word_char part; rest = dropWhile is_word_char part
      in if key = [] then None
         else (case rest of
                 [] \<Rightarrow> None
               | c # r \<Rightarrow>
                   if c \<noteq> CHR ''['' then None
                   else (let index = takeWhile is_digit_char r; tail = dropWhile is_digit_char r
                         in if index \<noteq> [] \<and> tail = '']'' then Some (key, index) else None)))"

text \<open>
  Property names that are array indices: canonical decimal numerals. \<open>v[key]\<close> for a value
  \<open>v\<close> that is neither \<open>null\<close> nor \<open>undefined\<close> reads an own property: an entry of an
  object, an element or the length of an array or of a string, nothing on a number or a
  boolean. On \<open>null\<close> JavaScript throws; every caller below tests for \<open>null\<close> first.
\<close>

definition canonical_index :: "string \<Rightarrow> nat option" where
  "canonical_index key =
     (if key \<noteq> [] \<and> list_all is_digit_char key \<and> (key = ''0'' \<or> hd key \<noteq> CHR ''0'')
      then Some (parseInt10 key) else None)"

fun js_get :: "json \<Rightarrow> string \<Rightarrow> jsvalue" where
  "js_get (JObj kvs) key = map_of kvs key"
| "js_get (JArr xs) key =
     (if key = ''length'' then Some (JNum (int (length xs)))
      else (case canonical_index key of
              None \<Rightarrow> None
            | Some i \<Rightarrow> if i < length xs then Some (xs ! i) else None))"
| "js_get (JStr s) key =
     (if key = ''length'' then Some (JNum (int (length s)))
      else (case canonical_index key of
              None \<Rightarrow> None
            | Some i \<Rightarrow> if i < length s then Some (JStr [s ! i]) else None))"
| "js_get JNull key = None"
| "js_get (JBool b) key = None"
| "js_get (JNum n) key = None"

text \<open>\<open>xs[i]\<close> on an array with a numeric index.\<close>

definition arr_index :: "json list \<Rightarrow> nat \<Rightarrow> jsvalue" where
  "arr_index xs i = (if i < length xs then Some (xs ! i) else None)"

text \<open>The body of the loop over the parts, for a current value that passed the null test.\<close>

definition step_part :: "string \<Rightarrow> json \<Rightarrow> jsvalue" where
  "step_part part current =
     (case match_array_index part of
        Some (key, index) \<Rightarrow>
          (case js_get current key of
             Some (JArr xs) \<Rightarrow> arr_index xs (parseInt10 index)
           | other \<Rightarrow> other)
      | None \<Rightarrow> js_get current part)"

fun walk_parts :: "string list \<Rightarrow> jsvalue \<Rightarrow> jsvalue" where
  "walk_parts [] current = current"
| "walk_parts (part # parts) current =
     (case current of
        None \<Rightarrow> None
      | Some JNull \<Rightarrow> None
      | Some v \<Rightarrow> walk_parts parts (step_part part v))"

definition extractJsonPath :: "json \<Rightarrow> string \<Rightarrow> jsvalue" where
  "extractJsonPath data path =
     (if path = [] \<or> path = ''$'' then Some data
      else walk_parts (split_on CHR ''.'' (strip_root path)) (Some data))"

section \<open>Block definitions and execution results (shared/types)\<close>

record InputDefinition =
  in_name :: string
  in_loc :: string

record OutputDefinition =
  out_name :: string
  out_path :: string

record BlockSource =
  serverUrl :: "string option"
  src_path :: string
  src_method :: string

record Block =
  bl_type :: string
  bl_source :: BlockSource
  bl_inputs :: "InputDefinition list"
  bl_outputs :: "OutputDefinition list"

datatype ExecutionStatus = Success | Failure | Partial

record BlockExecutionError =
  err_message :: string
  err_code :: "string option"

record RawResponse =
  statusCode :: nat
  raw_data :: json
  raw_headers :: "(string \<times> string) list"

record BlockExecutionResult =
  status :: ExecutionStatus
  outputs :: "jsrecord option"
  rawResponse :: "RawResponse option"
  error :: "BlockExecutionError option"

record ExecutionContext =
  ctx_flowId :: string
  ctx_inputs :: jsrecord
  variables :: jsrecord
  blockResults :: "BlockExecutionResult jsmap"

record ExecutionLog =
  log_flowId :: string
  log_flowVersion :: nat
  log_inputs :: jsrecord
  log_status :: ExecutionStatus
  log_outputs :: "jsrecord option"
  log_error :: "(string \<times> string) option"

section \<open>Mapping resolver (api/flows/index.ts, resolveInputMappings)\<close>

definition resolve_mapping :: "ExecutionContext \<Rightarrow> InputMapping \<Rightarrow> jsrecord \<Rightarrow> jsrecord" where
  "resolve_mapping context mapping result =
     (case source mapping of
        FlowInput name \<Rightarrow>
          rec_set (targetInput mapping) (rec_get (ctx_inputs context) (or_empty name)) result
      | BlockOutput blockId outputName \<Rightarrow>
          (case map_of (blockResults context) (or_empty blockId) of
             None \<Rightarrow> result
           | Some blockResult \<Rightarrow>
               (case outputs blockResult of
                  None \<Rightarrow> result
                | Some outs \<Rightarrow>
                    rec_set (targetInput mapping) (rec_get outs (or_empty outputName)) result))
      | Constant v \<Rightarrow> rec_set (targetInput mapping) v result
      | Expression text \<Rightarrow> rec_set (targetInput mapping) (map_option JStr text) result)"

definition resolveInputMappings :: "InputMapping list \<Rightarrow> ExecutionContext \<Rightarrow> jsrecord" where
  "resolveInputMappings mappings context = fold (resolve_mapping context) mappings []"

section \<open>The world outside the engine\<close>

text \<open>
  A thrown value is an \<open>Error\<close> with its message, or something else. An upstream request is
  kept in parts: the URL after path substitution, the query parameters, the method, the
  headers, the body handed to \<open>JSON.stringify\<close> and the delay given to
  \<open>AbortSignal.timeout\<close>. The upstream services are a function from the requests made so far
  and the present one to the time the answer takes and the answer; \<open>fetch\<close> throws
  \<open>abort_error\<close> when a timeout is set and the answer takes longer. The conversions
  \<open>String\<close>, \<open>encodeURIComponent\<close> and \<open>JSON.parse\<close> are the platform's and are parameters.
  \<open>db_find_block\<close> is \<open>new ObjectId(blockId)\<close> followed by \<open>findOne\<close>: it throws on a
  malformed id. Failures of the cache and of the database connection are not modelled.
\<close>

datatype js_exn = JsError string | NonError

definition exn_message :: "js_exn \<Rightarrow> string \<Rightarrow> string" where
  "exn_message ex dflt = (case ex of JsError m \<Rightarrow> m | NonError \<Rightarrow> dflt)"

record http_request =
  req_url :: string
  req_query :: "(string \<times> string) list"
  req_method :: string
  req_headers :: "(string \<times> string) list"
  req_body :: "json option"
  req_timeout :: "nat option"

record http_response =
  resp_status :: nat
  resp_headers :: "(string \<times> string) list"
  resp_json :: "js_exn + json"

datatype fetch_outcome = FetchThrows js_exn | FetchResponds http_response

record env =
  db_flows :: "Flow list"
  db_find_block :: "string \<Rightarrow> js_exn + Block option"
  upstream :: "http_request list \<Rightarrow> http_request \<Rightarrow> nat \<times> fetch_outcome"
  abort_error :: js_exn
  json_parse :: "string \<Rightarrow> json option"
  js_String :: "json \<Rightarrow> string"
  encodeURIComponent :: "string \<Rightarrow> string"

text \<open>
  What a request changes: the two caches, the upstream requests issued, the documents
  inserted into \<open>execution_logs\<close>, and (as a trace for the claims about dispatch) the
  instance ids handed to \<open>executeBlock\<close>.
\<close>

record world =
  flow_cache :: "Flow jsmap"
  block_cache :: "Block jsmap"
  calls :: "http_request list"
  logs :: "ExecutionLog list"
  dispatched :: "string list"

definition response_ok :: "nat \<Rightarrow> bool" where
  "response_ok s = (200 \<le> s \<and> s \<le> 299)"

definition fetch :: "env \<Rightarrow> http_request list \<Rightarrow> http_request \<Rightarrow> fetch_outcome" where
  "fetch e history req =
     (case upstream e history req of
        (latency, outcome) \<Rightarrow>
          (case req_timeout req of
             None \<Rightarrow> outcome
           | Some t \<Rightarrow> if t < latency then FetchThrows (abort_error e) else outcome))"

section \<open>Block dispatcher (api/flows/index.ts, executeBlock and executeApiCall)\<close>

definition truthy :: "json \<Rightarrow> bool" where
  "truthy v =
     (case v of
        JNull \<Rightarrow> False
      | JBool b \<Rightarrow> b
      | JNum n \<Rightarrow> n \<noteq> 0
      | JStr s \<Rightarrow> s \<noteq> []
      | JArr xs \<Rightarrow> True
      | JObj kvs \<Rightarrow> True)"

text \<open>\<open>url.replace(pattern, replacement)\<close> with a string pattern: the first occurrence only.\<close>

fun replace_first :: "string \<Rightarrow> string \<Rightarrow> string \<Rightarrow> string" where
  "replace_first pat rep [] = (if pat = [] then rep else [])"
| "replace_first pat rep (c # cs) =
     (if take (length pat) (c # cs) = pat then rep @ drop (length pat) (c # cs)
      else c # replace_first pat rep cs)"

definition add_input :: "env \<Rightarrow> jsrecord \<Rightarrow> InputDefinition \<Rightarrow> http_request \<Rightarrow> http_request" where
  "add_input e inputs input req =
     (case rec_get inputs (in_name input) of
        None \<Rightarrow> req
      | Some v \<Rightarrow>
          if in_loc input = ''path'' then
            req\<lparr>req_url := replace_first (''{'' @ in_name input @ ''}'')
                               (encodeURIComponent e (js_String e v)) (req_url req)\<rparr>
          else if in_loc input = ''query'' then
            req\<lparr>req_query := AList.update (in_name input) (js_String e v) (req_query req)\<rparr>
          else if in_loc input = ''header'' then
            req\<lparr>req_headers := AList.update (in_name input) (js_String e v) (req_headers req)\<rparr>
          else if in_loc input = ''body'' then req\<lparr>req_body := Some v\<rparr>
          else req)"

text \<open>\<open>config?.timeout ? AbortSignal.timeout(config.timeout) : undefined\<close>\<close>

definition signal_timeout :: "FlowBlockConfig option \<Rightarrow> nat option" where
  "signal_timeout cfg =
     (case cfg of
        None \<Rightarrow> None
      | Some c \<Rightarrow> (case timeout c of None \<Rightarrow> None | Some t \<Rightarrow> if t = 0 then None else Some t))"

definition build_request :: "env \<Rightarrow> Block \<Rightarrow> jsrecord \<Rightarrow> FlowBlockConfig option \<Rightarrow> http_request" where
  "build_request e block inputs cfg =
     (let r0 = \<lparr>req_url = or_empty (serverUrl (bl_source block)) @ src_path (bl_source block),
                 req_query = [],
                 req_method = src_method (bl_source block),
                 req_headers = [(''Content-Type'', ''application/json'')],
                 req_body = None,
                 req_timeout = None\<rparr>;
          r1 = fold (add_input e inputs) (bl_inputs block) r0
      in r1\<lparr>req_body := (case req_body r1 of
                             None \<Rightarrow> None
                           | Some b \<Rightarrow> if truthy b then Some b else None),
             req_timeout := signal_timeout cfg\<rparr>)"

definition failure_result :: "string \<Rightarrow> BlockExecutionResult" where
  "failure_result msg =
     \<lparr>status = Failure, outputs = None, rawResponse = None,
      error = Some \<lparr>err_message = msg, err_code = None\<rparr>\<rparr>"

definition extract_outputs :: "OutputDefinition list \<Rightarrow> json \<Rightarrow> jsrecord" where
  "extract_outputs outs data =
     fold (\<lambda>output acc. rec_set (out_name output) (extractJsonPath data (out_path output)) acc) outs []"

definition executeApiCall ::
  "env \<Rightarrow> Block \<Rightarrow> jsrecord \<Rightarrow> FlowBlockConfig option \<Rightarrow> world \<Rightarrow> BlockExecutionResult \<times> world" where
  "executeApiCall e block inputs cfg w =
     (let req = build_request e block inputs cfg;
          w' = w\<lparr>calls := calls w @ [req]\<rparr>
      in case fetch e (calls w) req of
           FetchThrows ex \<Rightarrow> (failure_result (exn_message ex ''API call failed''), w')
         | FetchResponds response \<Rightarrow>
             (case resp_json response of
                Inl ex \<Rightarrow> (failure_result (exn_message ex ''API call failed''), w')
              | Inr data \<Rightarrow>
                  (\<lparr>status = (if response_ok (resp_status response) then Success else Failure),
                    outputs = Some (extract_outputs (bl_outputs block) data),
                    rawResponse = Some \<lparr>statusCode = resp_status response, raw_data = data,
                                         raw_headers = resp_headers response\<rparr>,
                    error = None\<rparr>, w')))"

definition executeTransform :: "Block \<Rightarrow> jsrecord \<Rightarrow> BlockExecutionResult" where
  "executeTransform block inputs =
     \<lparr>status = Success, outputs = Some inputs, rawResponse = None, error = None\<rparr>"

text \<open>The part of \<open>executeBlock\<close> after the block definition has been found.\<close>

definition executeBlock_found ::
  "env \<Rightarrow> string \<Rightarrow> Block \<Rightarrow> jsrecord \<Rightarrow> FlowBlockConfig option \<Rightarrow> bool \<Rightarrow> world
     \<Rightarrow> BlockExecutionResult \<times> world" where
  "executeBlock_found e blockId block inputs cfg isTest w =
     (if isTest then
        (\<lparr>status = Success,
          outputs = Some [(''_test'', Some (JBool True)), (''blockId'', Some (JStr blockId))],
          rawResponse = None, error = None\<rparr>, w)
      else if bl_type block = ''api_call'' then executeApiCall e block inputs cfg w
      else if bl_type block = ''transform'' then (executeTransform block inputs, w)
      else (failure_result (''Unsupported block type: '' @ bl_type block), w))"

definition executeBlock ::
  "env \<Rightarrow> string \<Rightarrow> jsrecord \<Rightarrow> FlowBlockConfig option \<Rightarrow> bool \<Rightarrow> world
     \<Rightarrow> (js_exn + BlockExecutionResult) \<times> world" where
  "executeBlock e blockId inputs cfg isTest w =
     (case map_of (block_cache w) blockId of
        Some block \<Rightarrow>
          (case executeBlock_found e blockId block inputs cfg isTest w of (r, w') \<Rightarrow> (Inr r, w'))
      | None \<Rightarrow>
          (case db_find_block e blockId of
             Inl ex \<Rightarrow> (Inl ex, w)
           | Inr None \<Rightarrow> (Inr (failure_result (''Block not found: '' @ blockId)), w)
           | Inr (Some block) \<Rightarrow>
               (case executeBlock_found e blockId block inputs cfg isTest
                       (w\<lparr>block_cache := AList.update blockId block (block_cache w)\<rparr>) of
                  (r, w') \<Rightarrow> (Inr r, w'))))"

section \<open>Flow runner (api/flows/index.ts, runFlowExecution)\<close>

text \<open>\<open>flowBlock.config?.continueOnError\<close> as a condition.\<close>

definition continue_on_error :: "FlowBlock \<Rightarrow> bool" where
  "continue_on_error flowBlock =
     (case config flowBlock of None \<Rightarrow> False | Some c \<Rightarrow> continueOnError c = Some True)"

text \<open>
  The loop over the execution order. It ends with the context, or with the message and the
  instance id of the block that stopped it. A result is stored before it is tested; when
  \<open>executeBlock\<close> throws nothing is stored.
\<close>

fun run_blocks ::
  "env \<Rightarrow> Flow \<Rightarrow> bool \<Rightarrow> string list \<Rightarrow> ExecutionContext \<Rightarrow> world
     \<Rightarrow> ((string \<times> string) + ExecutionContext) \<times> world" where
  "run_blocks e flow isTest [] context w = (Inr context, w)"
| "run_blocks e flow isTest (blockId # rest) context w =
     (case find (\<lambda>b. fb_id b = blockId) (blocks flow) of
        None \<Rightarrow> run_blocks e flow isTest rest context w
      | Some flowBlock \<Rightarrow>
          (let blockInputs = resolveInputMappings (inputMappings flowBlock) context
           in case executeBlock e (fb_blockId flowBlock) blockInputs (config flowBlock) isTest
                     (w\<lparr>dispatched := dispatched w @ [blockId]\<rparr>) of
                (Inl ex, w') \<Rightarrow>
                  if \<not> continue_on_error flowBlock
                  then (Inl (exn_message ex ''Block execution failed'', blockId), w')
                  else run_blocks e flow isTest rest context w'
              | (Inr result, w') \<Rightarrow>
                  (let context' = context\<lparr>blockResults :=
                                     AList.update blockId result (blockResults context)\<rparr>
                   in case error result of
                        Some err \<Rightarrow>
                          if \<not> continue_on_error flowBlock
                          then (Inl (err_message err, blockId), w')
                          else run_blocks e flow isTest rest context' w'
                      | None \<Rightarrow> run_blocks e flow isTest rest context' w')))"

definition project_output :: "ExecutionContext \<Rightarrow> FlowOutputDefinition \<Rightarrow> jsrecord \<Rightarrow> jsrecord" where
  "project_output context output outs =
     (case map_of (blockResults context) (sourceBlockId output) of
        None \<Rightarrow> outs
      | Some blockResult \<Rightarrow>
          (case outputs blockResult of
             None \<Rightarrow> outs
           | Some bo \<Rightarrow> rec_set (fo_name output) (rec_get bo (sourceOutput output)) outs))"

definition build_outputs :: "FlowOutputDefinition list \<Rightarrow> ExecutionContext \<Rightarrow> jsrecord" where
  "build_outputs decls context = fold (project_output context) decls []"

datatype run_result = RunOutputs jsrecord | RunError string string

definition initial_context :: "Flow \<Rightarrow> jsrecord \<Rightarrow> ExecutionContext" where
  "initial_context flow inputs =
     \<lparr>ctx_flowId = or_empty (flow_id flow), ctx_inputs = inputs, variables = [], blockResults = []\<rparr>"

definition runFlowExecution :: "env \<Rightarrow> Flow \<Rightarrow> jsrecord \<Rightarrow> bool \<Rightarrow> world \<Rightarrow> run_result \<times> world" where
  "runFlowExecution e flow inputs isTest w =
     (let context = initial_context flow inputs;
          executionOrder = topologicalSort (blocks flow) (connections flow)
      in case run_blocks e flow isTest executionOrder context w of
           (Inl (message, blockId), w') \<Rightarrow> (RunError message blockId, w')
         | (Inr context', w') \<Rightarrow> (RunOutputs (build_outputs (fl_outputs flow) context'), w'))"

section \<open>Execute endpoint (api/flows/index.ts, executeFlow; utils/response.ts)\<close>

text \<open>
  A response is its status and the object given to \<open>JSON.stringify\<close>, which drops the
  properties that hold \<open>undefined\<close>. The request is its method, its query parameters and
  the outcome of \<open>request.json()\<close>: \<open>None\<close> when that throws, else the object sent (the
  source types the inputs as \<open>Record<string, unknown>\<close>).
\<close>

record Response =
  rs_status :: nat
  rs_body :: json

record Request =
  rq_method :: string
  rq_query :: "(string \<times> string) list"
  rq_json :: "(string \<times> json) list option"

definition json_of_record :: "jsrecord \<Rightarrow> json" where
  "json_of_record r = JObj (concat (map (\<lambda>(k, v). case v of None \<Rightarrow> [] | Some j \<Rightarrow> [(k, j)]) r))"

definition jsonResponse :: "json \<Rightarrow> nat option \<Rightarrow> Response" where
  "jsonResponse data st =
     (let s = (case st of None \<Rightarrow> 200 | Some s \<Rightarrow> s)
      in \<lparr>rs_status = s,
          rs_body = JObj [(''success'', JBool (200 \<le> s \<and> s < 300)), (''data'', data)]\<rparr>)"

definition errorResponse :: "string \<Rightarrow> nat option \<Rightarrow> string option \<Rightarrow> Response" where
  "errorResponse message st code =
     (let s = (case st of None \<Rightarrow> 400 | Some s \<Rightarrow> s);
          c = (case code of None \<Rightarrow> ''ERROR'' | Some c \<Rightarrow> c)
      in \<lparr>rs_status = s,
          rs_body = JObj [(''success'', JBool False),
                          (''error'', JObj [(''code'', JStr c), (''message'', JStr message)])]\<rparr>)"

definition load_flow :: "env \<Rightarrow> string \<Rightarrow> world \<Rightarrow> Flow option \<times> world" where
  "load_flow e slg w =
     (case map_of (flow_cache w) slg of
        Some flow \<Rightarrow> (Some flow, w)
      | None \<Rightarrow>
          (case find (\<lambda>f. slug f = slg \<and> fl_status f = Published) (db_flows e) of
             None \<Rightarrow> (None, w)
           | Some flow \<Rightarrow> (Some flow, w\<lparr>flow_cache := AList.update slg flow (flow_cache w)\<rparr>)))"

definition parse_inputs :: "env \<Rightarrow> Request \<Rightarrow> jsrecord" where
  "parse_inputs e request =
     (if rq_method request = ''GET'' then
        fold (\<lambda>(key, v) inputs.
                rec_set key (Some (case json_parse e v of Some j \<Rightarrow> j | None \<Rightarrow> JStr v)) inputs)
             (rq_query request) []
      else (case rq_json request of
              None \<Rightarrow> []
            | Some kvs \<Rightarrow> map (\<lambda>(k, v). (k, Some v)) kvs))"

definition missing_required :: "jsrecord \<Rightarrow> FlowInputDefinition \<Rightarrow> bool" where
  "missing_required inputs input = (fi_required input \<and> rec_get inputs (fi_name input) = None)"

definition apply_default :: "FlowInputDefinition \<Rightarrow> jsrecord \<Rightarrow> jsrecord" where
  "apply_default input inputs =
     (if rec_get inputs (fi_name input) = None \<and> fi_defaultValue input \<noteq> None
      then rec_set (fi_name input) (fi_defaultValue input) inputs
      else inputs)"

definition logExecution :: "Flow \<Rightarrow> jsrecord \<Rightarrow> run_result \<Rightarrow> world \<Rightarrow> world" where
  "logExecution flow inputs result w =
     w\<lparr>logs := logs w @
        [\<lparr>log_flowId = or_empty (flow_id flow),
          log_flowVersion = version flow,
          log_inputs = inputs,
          log_status = (case result of RunError m b \<Rightarrow> Failure | RunOutputs outs \<Rightarrow> Success),
          log_outputs = (case result of RunError m b \<Rightarrow> None | RunOutputs outs \<Rightarrow> Some outs),
          log_error = (case result of RunError m b \<Rightarrow> Some (m, b) | RunOutputs outs \<Rightarrow> None)\<rparr>]\<rparr>"

definition executeFlow :: "env \<Rightarrow> string \<Rightarrow> Request \<Rightarrow> bool \<Rightarrow> world \<Rightarrow> Response \<times> world" where
  "executeFlow e slg request isTest w =
     (case load_flow e slg w of
        (None, w1) \<Rightarrow> (errorResponse ''Flow not found or not published'' (Some 404) None, w1)
      | (Some flow, w1) \<Rightarrow>
          (let inputs = parse_inputs e request
           in case find (missing_required inputs) (fl_inputs flow) of
                Some input \<Rightarrow>
                  (errorResponse (''Missing required input: '' @ fi_name input) (Some 400) None, w1)
              | None \<Rightarrow>
                  (let inputs' = fold apply_default (fl_inputs flow) inputs
                   in case runFlowExecution e flow inputs' isTest w1 of
                        (result, w2) \<Rightarrow>
                          (let w3 = (if \<not> isTest then logExecution flow inputs' result w2 else w2)
                           in case result of
                                RunError message blockId \<Rightarrow>
                                  (errorResponse message (Some 500) (Some ''EXECUTION_ERROR''), w3)
                              | RunOutputs outs \<Rightarrow>
                                  (jsonResponse (json_of_record outs) None, w3)))))"

section \<open>Properties of the topological sort\<close>

text \<open>
  The degree read with \<open>|| 0\<close>, the blocks the inner loop pushes, and the invariant of the
  \<open>while\<close> loop: the emitted and queued ids are distinct and have degree zero, every degree
  is the number of incoming connections minus those whose source is an emitted block, and
  every emitted id has the sources of all its incoming connections emitted before it.
\<close>

definition deg :: "int jsmap \<Rightarrow> string \<Rightarrow> int" where
  "deg d m = or0 (map_of d m)"

lemma deg_update: "deg (AList.update n v d) m = (if m = n then v else deg d m)"
  by (simp add: deg_def update_conv')

lemma relax_deg: "deg (fst (relax ns (d, q))) m = deg d m - int (count_list ns m)"
proof (induction ns arbitrary: d q)
  case Nil
  show ?case by simp
next
  case (Cons n ns)
  show ?case
    by (simp add: Let_def Cons.IH deg_update) (simp add: deg_def)
qed

lemma relax_queue: "snd (relax ns (d, q)) = q @ snd (relax ns (d, []))"
proof (induction ns arbitrary: d q)
  case Nil
  show ?case by simp
next
  case (Cons n ns)
  let ?d1 = "AList.update n (or0 (map_of d n) - 1) d"
  have a: "snd (relax ns (?d1, q @ [n])) = (q @ [n]) @ snd (relax ns (?d1, []))"
    by (rule Cons.IH)
  have b: "snd (relax ns (?d1, [n])) = [n] @ snd (relax ns (?d1, []))"
    by (rule Cons.IH)
  have c: "snd (relax ns (?d1, q)) = q @ snd (relax ns (?d1, []))"
    by (rule Cons.IH)
  show ?case
  proof (cases "or0 (map_of d n) = 1")
    case True
    then show ?thesis using a b by (simp add: Let_def)
  next
    case False
    then show ?thesis using c by (simp add: Let_def)
  qed
qed

definition pushed :: "string list \<Rightarrow> int jsmap \<Rightarrow> string list" where
  "pushed ns d = snd (relax ns (d, []))"

lemma pushed_Nil: "pushed [] d = []"
  by (simp add: pushed_def)

lemma pushed_Cons:
  "pushed (n # ns) d =
     (if deg d n = 1 then [n] else []) @ pushed ns (AList.update n (deg d n - 1) d)"
proof (cases "deg d n = 1")
  case True
  then show ?thesis
    using relax_queue [of ns "AList.update n (deg d n - 1) d" "[n]"]
    by (simp add: pushed_def Let_def deg_def)
next
  case False
  then show ?thesis by (simp add: pushed_def Let_def deg_def)
qed

lemma pushed_set:
  "set (pushed ns d) = {m \<in> set ns. 1 \<le> deg d m \<and> deg d m \<le> int (count_list ns m)}"
proof (induction ns arbitrary: d)
  case Nil
  show ?case by (simp add: pushed_Nil)
next
  case (Cons n ns)
  have z: "\<And>m. m \<notin> set ns \<Longrightarrow> count_list ns m = 0"
    by (simp add: count_list_0_iff)
  show ?case
    unfolding pushed_Cons
    using z [of n] by (cases "n \<in> set ns") (auto simp: Cons.IH deg_update split: if_splits)
qed

lemma pushed_distinct: "distinct (pushed ns d)"
proof (induction ns arbitrary: d)
  case Nil
  show ?case by (simp add: pushed_Nil)
next
  case (Cons n ns)
  show ?case
    unfolding pushed_Cons
    by (auto simp: Cons.IH pushed_set deg_update)
qed

definition block_ids :: "FlowBlock list \<Rightarrow> string set" where
  "block_ids blks = fb_id ` set blks"

definition tot :: "Connection list \<Rightarrow> string \<Rightarrow> int" where
  "tot conns m = int (length (filter (\<lambda>c. toBlockId c = m) conns))"

definition cnt :: "string set \<Rightarrow> Connection list \<Rightarrow> string set \<Rightarrow> string \<Rightarrow> int" where
  "cnt B conns S m =
     int (length (filter (\<lambda>c. toBlockId c = m \<and> fromBlockId c \<in> B \<and> fromBlockId c \<in> S) conns))"

definition graph_ok :: "string set \<Rightarrow> Connection list \<Rightarrow> string list jsmap \<Rightarrow> bool" where
  "graph_ok B conns g \<longleftrightarrow>
     (\<forall>k. successors g k =
        (if k \<in> B then map toBlockId (filter (\<lambda>c. fromBlockId c = k) conns) else []))"

definition preds_before :: "string set \<Rightarrow> Connection list \<Rightarrow> string list \<Rightarrow> bool" where
  "preds_before B conns res \<longleftrightarrow>
     (\<forall>i < length res. \<forall>c \<in> set conns. toBlockId c = res ! i \<longrightarrow>
        fromBlockId c \<in> B \<and> fromBlockId c \<in> set (take i res))"

definition kahn_inv :: "string set \<Rightarrow> Connection list \<Rightarrow> int jsmap \<Rightarrow> string list \<Rightarrow> string list \<Rightarrow> bool" where
  "kahn_inv B conns d q res \<longleftrightarrow>
     distinct (res @ q) \<and>
     (\<forall>m. deg d m = tot conns m - cnt B conns (set res) m) \<and>
     (\<forall>m \<in> set (res @ q). deg d m = 0) \<and>
     preds_before B conns res"

lemma filter_conj_le: "length (filter (\<lambda>x. P x \<and> Q x) xs) \<le> length (filter P xs)"
  by (induction xs) simp_all

lemma filter_conj_full:
  "length (filter (\<lambda>x. P x \<and> Q x) xs) = length (filter P xs) \<Longrightarrow> x \<in> set xs \<Longrightarrow> P x \<Longrightarrow> Q x"
proof (induction xs)
  case Nil
  then show ?case by simp
next
  case (Cons y ys)
  show ?case
  proof (cases "P y")
    case False
    then have "length (filter (\<lambda>x. P x \<and> Q x) ys) = length (filter P ys)"
      using Cons.prems(1) by simp
    moreover have "x \<in> set ys" using Cons.prems(2,3) False by auto
    ultimately show ?thesis using Cons.IH Cons.prems(3) by blast
  next
    case True
    show ?thesis
    proof (cases "Q y")
      case False
      then have "length (filter (\<lambda>x. P x \<and> Q x) ys) = Suc (length (filter P ys))"
        using Cons.prems(1) True by simp
      then show ?thesis using filter_conj_le [of P Q ys] by simp
    next
      case qy: True
      then have e: "length (filter (\<lambda>x. P x \<and> Q x) ys) = length (filter P ys)"
        using Cons.prems(1) True by simp
      show ?thesis
      proof (cases "x = y")
        case True
        then show ?thesis using qy by simp
      next
        case False
        then have "x \<in> set ys" using Cons.prems(2) by simp
        then show ?thesis using Cons.IH [OF e] Cons.prems(3) by blast
      qed
    qed
  qed
qed

lemma cnt_le: "cnt B conns S m \<le> tot conns m"
  unfolding cnt_def tot_def by (induction conns) auto

lemma cnt_full:
  assumes "cnt B conns S m = tot conns m" and "c \<in> set conns" and "toBlockId c = m"
  shows "fromBlockId c \<in> B \<and> fromBlockId c \<in> S"
proof -
  have "length (filter (\<lambda>c. toBlockId c = m \<and> (fromBlockId c \<in> B \<and> fromBlockId c \<in> S)) conns) =
        length (filter (\<lambda>c. toBlockId c = m) conns)"
    using assms(1) by (simp add: cnt_def tot_def)
  from filter_conj_full [OF this assms(2) assms(3)] show ?thesis .
qed

lemma cnt_insert:
  "cur \<notin> S \<Longrightarrow>
   cnt B conns (insert cur S) m =
     cnt B conns S m +
     (if cur \<in> B then int (length (filter (\<lambda>c. fromBlockId c = cur \<and> toBlockId c = m) conns)) else 0)"
  unfolding cnt_def by (induction conns) auto

lemma count_list_map_filter:
  "count_list (map f (filter P xs)) y = length (filter (\<lambda>x. P x \<and> f x = y) xs)"
  by (induction xs) auto

lemma count_succ:
  "graph_ok B conns g \<Longrightarrow>
   int (count_list (successors g cur) m) =
     (if cur \<in> B then int (length (filter (\<lambda>c. fromBlockId c = cur \<and> toBlockId c = m) conns)) else 0)"
  by (simp add: graph_ok_def count_list_map_filter)

lemma preds_before_snoc:
  assumes "preds_before B conns res"
    and "\<forall>c \<in> set conns. toBlockId c = cur \<longrightarrow> fromBlockId c \<in> B \<and> fromBlockId c \<in> set res"
  shows "preds_before B conns (res @ [cur])"
  unfolding preds_before_def
proof (intro allI impI ballI)
  fix i c
  assume i: "i < length (res @ [cur])" and c: "c \<in> set conns" and t: "toBlockId c = (res @ [cur]) ! i"
  show "fromBlockId c \<in> B \<and> fromBlockId c \<in> set (take i (res @ [cur]))"
  proof (cases "i < length res")
    case True
    then show ?thesis using assms(1) c t by (auto simp: preds_before_def nth_append)
  next
    case False
    then have "i = length res" using i by simp
    then show ?thesis using assms(2) c t by simp
  qed
qed

lemma kahn_inv_step:
  assumes inv: "kahn_inv B conns d (cur # q) res"
    and g: "graph_ok B conns g"
    and r: "relax (successors g cur) (d, q) = (d', q')"
  shows "kahn_inv B conns d' q' (res @ [cur])"
proof -
  let ?ns = "successors g cur"
  have q': "q' = q @ pushed ?ns d"
    using relax_queue [of ?ns d q] r by (simp add: pushed_def)
  have d': "\<And>m. deg d' m = deg d m - int (count_list ?ns m)"
    using relax_deg [of ?ns d q] r by simp
  have dist: "distinct (res @ cur # q)" and degs: "\<And>m. deg d m = tot conns m - cnt B conns (set res) m"
    and zero: "\<And>m. m \<in> set (res @ cur # q) \<Longrightarrow> deg d m = 0" and pb: "preds_before B conns res"
    using inv by (auto simp: kahn_inv_def)
  have cur: "cur \<notin> set res" using dist by auto
  have degs': "\<And>m. deg d' m = tot conns m - cnt B conns (set (res @ [cur])) m"
    using d' degs cnt_insert [OF cur, of B conns] count_succ [OF g, of cur] by simp
  have nonneg: "\<And>m. 0 \<le> deg d' m"
    using degs' cnt_le [of B conns] by (simp del: set_append)
  have zero': "\<And>m. m \<in> set ((res @ [cur]) @ q') \<Longrightarrow> deg d' m = 0"
  proof -
    fix m assume m: "m \<in> set ((res @ [cur]) @ q')"
    have "deg d' m \<le> 0"
    proof (cases "m \<in> set (res @ cur # q)")
      case True
      then show ?thesis using zero [of m] d' [of m] by simp
    next
      case False
      then have "m \<in> set (pushed ?ns d)" using m q' by auto
      then show ?thesis using d' [of m] by (simp add: pushed_set)
    qed
    then show "deg d' m = 0" using nonneg [of m] by simp
  qed
  have disj: "set (pushed ?ns d) \<inter> set (res @ cur # q) = {}"
  proof (rule ccontr)
    assume "set (pushed ?ns d) \<inter> set (res @ cur # q) \<noteq> {}"
    then obtain m where a: "m \<in> set (pushed ?ns d)" and b: "m \<in> set (res @ cur # q)" by blast
    from a have "1 \<le> deg d m" by (simp add: pushed_set)
    then show False using zero [OF b] by simp
  qed
  have dist': "distinct ((res @ [cur]) @ q')"
    using dist disj pushed_distinct [of ?ns d] q' by auto
  have "cnt B conns (set res) cur = tot conns cur"
    using degs [of cur] zero [of cur] by simp
  then have "\<forall>c \<in> set conns. toBlockId c = cur \<longrightarrow> fromBlockId c \<in> B \<and> fromBlockId c \<in> set res"
    using cnt_full by blast
  then have pb': "preds_before B conns (res @ [cur])"
    using pb preds_before_snoc by blast
  show ?thesis
    unfolding kahn_inv_def using dist' degs' zero' pb' by blast
qed

lemma kahn_correct:
  "graph_ok B conns g \<Longrightarrow> kahn_inv B conns d q res \<Longrightarrow>
   distinct (kahn g d q res) \<and> preds_before B conns (kahn g d q res)"
proof (induction g d q res rule: kahn.induct)
  case (1 graph inDegree result)
  then show ?case by (simp add: kahn_inv_def)
next
  case (2 graph inDegree current queue result)
  obtain d' q' where r: "relax (successors graph current) (inDegree, queue) = (d', q')"
    by (cases "relax (successors graph current) (inDegree, queue)")
  have "kahn_inv B conns d' q' (result @ [current])"
    using kahn_inv_step [OF "2.prems"(2) "2.prems"(1) r] .
  then have "distinct (kahn graph d' q' (result @ [current])) \<and>
             preds_before B conns (kahn graph d' q' (result @ [current]))"
    using "2.IH" [OF r [symmetric] "2.prems"(1)] by simp
  then show ?case using r by simp
qed

lemma fst_init_block: "fst (init_block b s) = AList.update (fb_id b) [] (fst s)"
  by (cases s) (simp add: init_block_def)

lemma snd_init_block: "snd (init_block b s) = AList.update (fb_id b) 0 (snd s)"
  by (cases s) (simp add: init_block_def)

lemma init_graph:
  "map_of (fst (fold init_block blks s)) k =
     (if k \<in> block_ids blks then Some [] else map_of (fst s) k)"
  by (induction blks arbitrary: s) (auto simp: block_ids_def fst_init_block update_conv')

lemma init_deg:
  "map_of (snd (fold init_block blks s)) k =
     (if k \<in> block_ids blks then Some 0 else map_of (snd s) k)"
  by (induction blks arbitrary: s) (auto simp: block_ids_def snd_init_block update_conv')

lemma init_distinct:
  "distinct (map fst (snd s)) \<Longrightarrow> distinct (map fst (snd (fold init_block blks s)))"
  by (induction blks arbitrary: s) (auto simp: snd_init_block distinct_update)

lemma fst_add_connection:
  "fst (add_connection c s) =
     (case map_of (fst s) (fromBlockId c) of
        None \<Rightarrow> fst s
      | Some ns \<Rightarrow> AList.update (fromBlockId c) (ns @ [toBlockId c]) (fst s))"
  by (cases s) (simp add: add_connection_def split: option.splits)

lemma snd_add_connection:
  "snd (add_connection c s) =
     AList.update (toBlockId c) (or0 (map_of (snd s) (toBlockId c)) + 1) (snd s)"
  by (cases s) (simp add: add_connection_def)

lemma conn_graph:
  "map_of (fst (fold add_connection cs s)) k =
     (case map_of (fst s) k of
        None \<Rightarrow> None
      | Some ns \<Rightarrow> Some (ns @ map toBlockId (filter (\<lambda>c. fromBlockId c = k) cs)))"
proof (induction cs arbitrary: s)
  case Nil
  show ?case by (simp split: option.splits)
next
  case (Cons c cs)
  show ?case
    by (simp add: Cons.IH fst_add_connection update_conv' split: option.splits)
qed

lemma conn_deg:
  "deg (snd (fold add_connection cs s)) m =
     deg (snd s) m + int (length (filter (\<lambda>c. toBlockId c = m) cs))"
proof (induction cs arbitrary: s)
  case Nil
  show ?case by simp
next
  case (Cons c cs)
  show ?case
    by (simp add: Cons.IH snd_add_connection deg_update) (simp add: deg_def)
qed

lemma conn_distinct:
  "distinct (map fst (snd s)) \<Longrightarrow> distinct (map fst (snd (fold add_connection cs s)))"
  by (induction cs arbitrary: s) (auto simp: snd_add_connection distinct_update)

lemma zero_keys_distinct: "distinct (map fst d) \<Longrightarrow> distinct (zero_keys d)"
  by (simp add: zero_keys_def distinct_map_filter)

lemma zero_keys_deg: "distinct (map fst d) \<Longrightarrow> m \<in> set (zero_keys d) \<Longrightarrow> deg d m = 0"
  by (auto simp: zero_keys_def deg_def)

lemma topo_start:
  assumes "fold add_connection conns (fold init_block blks ([], [])) = (g, d)"
  shows "graph_ok (block_ids blks) conns g \<and> kahn_inv (block_ids blks) conns d (zero_keys d) []"
proof -
  let ?s0 = "fold init_block blks ([], [])"
  have g: "g = fst (fold add_connection conns ?s0)" and d: "d = snd (fold add_connection conns ?s0)"
    using assms by simp_all
  have "graph_ok (block_ids blks) conns g"
    unfolding graph_ok_def successors_def g by (simp add: conn_graph init_graph)
  moreover have dist: "distinct (map fst d)"
    unfolding d by (rule conn_distinct, rule init_distinct) simp
  moreover have "\<And>m. deg d m = tot conns m - cnt (block_ids blks) conns (set []) m"
    unfolding d by (simp add: conn_deg tot_def cnt_def) (simp add: deg_def init_deg)
  moreover have "\<forall>m \<in> set ([] @ zero_keys d). deg d m = 0"
    using dist zero_keys_deg by simp
  moreover have "distinct ([] @ zero_keys d)"
    using dist zero_keys_distinct by simp
  moreover have "preds_before (block_ids blks) conns []"
    by (simp add: preds_before_def)
  ultimately show ?thesis
    unfolding kahn_inv_def by blast
qed

lemma topologicalSort_inv:
  "distinct (topologicalSort blks conns) \<and>
   preds_before (block_ids blks) conns (topologicalSort blks conns)"
proof -
  obtain g d where s: "fold add_connection conns (fold init_block blks ([], [])) = (g, d)"
    by (cases "fold add_connection conns (fold init_block blks ([], []))")
  from topo_start [OF s] kahn_correct [of "block_ids blks" conns g d "zero_keys d" "[]"]
  show ?thesis by (simp add: topologicalSort_def s)
qed

text \<open>The edge relation of the connection graph.\<close>

definition edges :: "Connection list \<Rightarrow> (string \<times> string) set" where
  "edges conns = (\<lambda>c. (fromBlockId c, toBlockId c)) ` set conns"

lemma emitted_pred:
  assumes "(a, b) \<in> edges conns" and "j < length (topologicalSort blks conns)"
    and "topologicalSort blks conns ! j = b"
  shows "a \<in> block_ids blks \<and> (\<exists>i<j. topologicalSort blks conns ! i = a)"
proof -
  let ?res = "topologicalSort blks conns"
  obtain c where c: "c \<in> set conns" "fromBlockId c = a" "toBlockId c = b"
    using assms(1) by (auto simp: edges_def)
  have "preds_before (block_ids blks) conns ?res"
    by (rule conjunct2 [OF topologicalSort_inv])
  then have pb: "\<forall>i < length ?res. \<forall>c \<in> set conns. toBlockId c = ?res ! i \<longrightarrow>
        fromBlockId c \<in> block_ids blks \<and> fromBlockId c \<in> set (take i ?res)"
    by (simp only: preds_before_def)
  have t: "toBlockId c = ?res ! j" using c(3) assms(3) by simp
  from pb [rule_format, OF assms(2) c(1) t]
  have a: "a \<in> block_ids blks" and b: "a \<in> set (take j ?res)"
    using c(2) by simp_all
  from b obtain i where i: "i < length (take j ?res)" "take j ?res ! i = a"
    by (meson in_set_conv_nth)
  then have "i < j" "?res ! i = a" by simp_all
  then show ?thesis using a by blast
qed

lemma emitted_trancl:
  assumes "(a, b) \<in> (edges conns)\<^sup>+"
  shows "\<forall>j < length (topologicalSort blks conns). topologicalSort blks conns ! j = b \<longrightarrow>
           (\<exists>i<j. topologicalSort blks conns ! i = a)"
  using assms
proof (induction rule: trancl_induct)
  case (base y)
  then show ?case using emitted_pred by blast
next
  case (step y z)
  show ?case
  proof (intro allI impI)
    fix j assume j: "j < length (topologicalSort blks conns)" "topologicalSort blks conns ! j = z"
    from emitted_pred [OF step.hyps(2) j] obtain k where k: "k < j" "topologicalSort blks conns ! k = y"
      by blast
    have kl: "k < length (topologicalSort blks conns)" using k(1) j(1) by simp
    from step.IH [rule_format, OF kl k(2)] obtain i where i: "i < k" "topologicalSort blks conns ! i = a"
      by blast
    have "i < j" using i(1) k(1) by simp
    then show "\<exists>i<j. topologicalSort blks conns ! i = a" using i(2) by blast
  qed
qed

lemma cycle_not_emitted:
  assumes "(n, n) \<in> (edges conns)\<^sup>+"
  shows "n \<notin> set (topologicalSort blks conns)"
proof
  let ?res = "topologicalSort blks conns"
  assume "n \<in> set ?res"
  then obtain j where j: "j < length ?res" "?res ! j = n" by (auto simp: in_set_conv_nth)
  from emitted_trancl [OF assms, of blks, rule_format, OF j] obtain i where i: "i < j" "?res ! i = n" by blast
  have d: "distinct ?res" by (rule conjunct1 [OF topologicalSort_inv])
  have il: "i < length ?res" using i(1) j(1) by simp
  have "?res ! i = ?res ! j" using i(2) j(2) by simp
  then have "i = j" using nth_eq_iff_index_eq [OF d il j(1)] by simp
  then show False using i(1) by simp
qed

lemma dangling_not_emitted:
  assumes "c \<in> set conns" and "fromBlockId c \<notin> block_ids blks"
  shows "toBlockId c \<notin> set (topologicalSort blks conns)"
proof
  assume "toBlockId c \<in> set (topologicalSort blks conns)"
  then obtain j where "j < length (topologicalSort blks conns)" "topologicalSort blks conns ! j = toBlockId c"
    by (auto simp: in_set_conv_nth)
  moreover have "(fromBlockId c, toBlockId c) \<in> edges conns" using assms(1) by (simp add: edges_def)
  ultimately show False using emitted_pred assms(2) by blast
qed

lemma downstream_not_emitted:
  assumes "(a, b) \<in> (edges conns)\<^sup>*" and "a \<notin> set (topologicalSort blks conns)"
  shows "b \<notin> set (topologicalSort blks conns)"
  using assms
proof (induction rule: rtrancl_induct)
  case base
  then show ?case by simp
next
  case (step y z)
  show ?case
  proof
    assume "z \<in> set (topologicalSort blks conns)"
    then have "\<exists>j. j < length (topologicalSort blks conns) \<and> topologicalSort blks conns ! j = z"
      by (simp add: in_set_conv_nth)
    then obtain j where j: "j < length (topologicalSort blks conns)" "topologicalSort blks conns ! j = z"
      by blast
    from emitted_pred [OF step.hyps(2) j] obtain i where "i < j" "topologicalSort blks conns ! i = y"
      by blast
    then have "y \<in> set (topologicalSort blks conns)"
      using j(1) by (metis less_trans nth_mem)
    then show False using step by simp
  qed
qed

section \<open>Properties of the dispatcher and of the runner\<close>


lemma executeApiCall_frame:
  "logs (snd (executeApiCall e block inputs cfg w)) = logs w \<and>
   dispatched (snd (executeApiCall e block inputs cfg w)) = dispatched w \<and>
   block_cache (snd (executeApiCall e block inputs cfg w)) = block_cache w \<and>
   flow_cache (snd (executeApiCall e block inputs cfg w)) = flow_cache w"
  by (simp add: executeApiCall_def Let_def split: fetch_outcome.splits sum.splits)

lemma executeBlock_found_frame:
  assumes "executeBlock_found e blockId block inputs cfg isTest w = (r, w')"
  shows "logs w' = logs w \<and> dispatched w' = dispatched w \<and> (isTest \<longrightarrow> calls w' = calls w)"
proof (cases "\<not> isTest \<and> bl_type block = ''api_call''")
  case True
  then have "w' = snd (executeApiCall e block inputs cfg w)"
    using assms by (simp add: executeBlock_found_def)
  then show ?thesis using True executeApiCall_frame [of e block inputs cfg w] by simp
next
  case False
  then have "w' = w" using assms by (auto simp: executeBlock_found_def split: if_splits)
  then show ?thesis by simp
qed

lemma executeBlock_frame:
  assumes "executeBlock e blockId inputs cfg isTest w = (r, w')"
  shows "logs w' = logs w \<and> dispatched w' = dispatched w \<and> (isTest \<longrightarrow> calls w' = calls w)"
proof (cases "map_of (block_cache w) blockId")
  case (Some block)
  then obtain r0 where "executeBlock_found e blockId block inputs cfg isTest w = (r0, w')"
    using assms by (auto simp: executeBlock_def split: prod.splits)
  then show ?thesis by (rule executeBlock_found_frame)
next
  case None
  show ?thesis
  proof (cases "db_find_block e blockId")
    case (Inl ex)
    then show ?thesis using assms None by (simp add: executeBlock_def)
  next
    case (Inr found)
    show ?thesis
    proof (cases found)
      case None2: None
      then show ?thesis using assms None Inr by (simp add: executeBlock_def)
    next
      case (Some block)
      let ?w = "w\<lparr>block_cache := AList.update blockId block (block_cache w)\<rparr>"
      obtain r0 where "executeBlock_found e blockId block inputs cfg isTest ?w = (r0, w')"
        using assms None Inr Some by (auto simp: executeBlock_def split: prod.splits)
      from executeBlock_found_frame [OF this] show ?thesis by simp
    qed
  qed
qed

lemma run_blocks_Cons_cases [consumes 1, case_names skip threw_stop threw_cont err_stop stored]:
  assumes run: "run_blocks e flow t (bid # rest) ctx w = (r, w')"
  obtains
    "find (\<lambda>b. fb_id b = bid) (blocks flow) = None" and "run_blocks e flow t rest ctx w = (r, w')"
  | fb ex where "find (\<lambda>b. fb_id b = bid) (blocks flow) = Some fb"
      and "executeBlock e (fb_blockId fb) (resolveInputMappings (inputMappings fb) ctx) (config fb) t
             (w\<lparr>dispatched := dispatched w @ [bid]\<rparr>) = (Inl ex, w')"
      and "\<not> continue_on_error fb" and "r = Inl (exn_message ex ''Block execution failed'', bid)"
  | fb ex w1 where "find (\<lambda>b. fb_id b = bid) (blocks flow) = Some fb"
      and "executeBlock e (fb_blockId fb) (resolveInputMappings (inputMappings fb) ctx) (config fb) t
             (w\<lparr>dispatched := dispatched w @ [bid]\<rparr>) = (Inl ex, w1)"
      and "continue_on_error fb" and "run_blocks e flow t rest ctx w1 = (r, w')"
  | fb res err where "find (\<lambda>b. fb_id b = bid) (blocks flow) = Some fb"
      and "executeBlock e (fb_blockId fb) (resolveInputMappings (inputMappings fb) ctx) (config fb) t
             (w\<lparr>dispatched := dispatched w @ [bid]\<rparr>) = (Inr res, w')"
      and "error res = Some err" and "\<not> continue_on_error fb" and "r = Inl (err_message err, bid)"
  | fb res w1 where "find (\<lambda>b. fb_id b = bid) (blocks flow) = Some fb"
      and "executeBlock e (fb_blockId fb) (resolveInputMappings (inputMappings fb) ctx) (config fb) t
             (w\<lparr>dispatched := dispatched w @ [bid]\<rparr>) = (Inr res, w1)"
      and "error res = None \<or> continue_on_error fb"
      and "run_blocks e flow t rest (ctx\<lparr>blockResults := AList.update bid res (blockResults ctx)\<rparr>) w1 = (r, w')"
proof (cases "find (\<lambda>b. fb_id b = bid) (blocks flow)")
  case None
  then show ?thesis using run that(1) by simp
next
  case (Some fb)
  obtain x w1 where ex: "executeBlock e (fb_blockId fb) (resolveInputMappings (inputMappings fb) ctx)
      (config fb) t (w\<lparr>dispatched := dispatched w @ [bid]\<rparr>) = (x, w1)"
    by (cases "executeBlock e (fb_blockId fb) (resolveInputMappings (inputMappings fb) ctx)
      (config fb) t (w\<lparr>dispatched := dispatched w @ [bid]\<rparr>)")
  show ?thesis
  proof (cases x)
    case (Inl exn)
    show ?thesis
    proof (cases "continue_on_error fb")
      case True
      then show ?thesis using run Some ex Inl that(3) by (simp add: Let_def)
    next
      case False
      then show ?thesis using run Some ex Inl that(2) by (simp add: Let_def)
    qed
  next
    case (Inr res)
    show ?thesis
    proof (cases "error res")
      case None
      then show ?thesis using run Some ex Inr that(5) by (simp add: Let_def)
    next
      case (Some err)
      show ?thesis
      proof (cases "continue_on_error fb")
        case True
        then show ?thesis using run \<open>find (\<lambda>b. fb_id b = bid) (blocks flow) = Some fb\<close> ex Inr Some that(5)
          by (simp add: Let_def)
      next
        case False
        then show ?thesis using run \<open>find (\<lambda>b. fb_id b = bid) (blocks flow) = Some fb\<close> ex Inr Some that(4)
          by (simp add: Let_def)
      qed
    qed
  qed
qed

lemma run_blocks_frame:
  "run_blocks e flow t order ctx w = (r, w') \<Longrightarrow>
   logs w' = logs w \<and> (t \<longrightarrow> calls w' = calls w) \<and>
   set (dispatched w') \<subseteq> set (dispatched w) \<union> set order"
proof (induction order arbitrary: ctx w)
  case Nil
  then show ?case by simp
next
  case (Cons bid rest)
  from Cons.prems show ?case
  proof (cases rule: run_blocks_Cons_cases)
    case skip
    from Cons.IH [OF skip(2)] show ?thesis by auto
  next
    case (threw_stop fb ex)
    from executeBlock_frame [OF threw_stop(2)] show ?thesis by auto
  next
    case (threw_cont fb ex w1)
    from executeBlock_frame [OF threw_cont(2)] Cons.IH [OF threw_cont(4)] show ?thesis by auto
  next
    case (err_stop fb res err)
    from executeBlock_frame [OF err_stop(2)] show ?thesis by auto
  next
    case (stored fb res w1)
    from executeBlock_frame [OF stored(2)] Cons.IH [OF stored(4)] show ?thesis by auto
  qed
qed

lemma run_blocks_results:
  "run_blocks e flow t order ctx w = (Inr ctx', w') \<Longrightarrow> k \<notin> set order \<Longrightarrow>
   map_of (blockResults ctx') k = map_of (blockResults ctx) k"
proof (induction order arbitrary: ctx w)
  case Nil
  then show ?case by simp
next
  case (Cons bid rest)
  from Cons.prems(1) show ?case
  proof (cases rule: run_blocks_Cons_cases)
    case skip
    from Cons.IH [OF skip(2)] Cons.prems(2) show ?thesis by simp
  next
    case (threw_stop fb ex)
    then show ?thesis by simp
  next
    case (threw_cont fb ex w1)
    from Cons.IH [OF threw_cont(4)] Cons.prems(2) show ?thesis by simp
  next
    case (err_stop fb res err)
    then show ?thesis by simp
  next
    case (stored fb res w1)
    from Cons.IH [OF stored(4)] Cons.prems(2) show ?thesis by (simp add: update_conv')
  qed
qed

lemma run_blocks_error_block:
  "run_blocks e flow t order ctx w = (Inl (msg, bid), w') \<Longrightarrow> bid \<in> set order"
proof (induction order arbitrary: ctx w)
  case Nil
  then show ?case by simp
next
  case (Cons b rest)
  from Cons.prems show ?case
  proof (cases rule: run_blocks_Cons_cases)
    case skip
    from Cons.IH [OF skip(2)] show ?thesis by simp
  next
    case (threw_stop fb ex)
    then show ?thesis by simp
  next
    case (threw_cont fb ex w1)
    from Cons.IH [OF threw_cont(4)] show ?thesis by simp
  next
    case (err_stop fb res err)
    then show ?thesis by simp
  next
    case (stored fb res w1)
    from Cons.IH [OF stored(4)] show ?thesis by simp
  qed
qed

lemma runFlowExecution_cases:
  assumes "runFlowExecution e flow inputs t w = (r, w')"
  obtains msg bid where "r = RunError msg bid"
      and "run_blocks e flow t (topologicalSort (blocks flow) (connections flow))
             (initial_context flow inputs) w = (Inl (msg, bid), w')"
  | ctx' where "r = RunOutputs (build_outputs (fl_outputs flow) ctx')"
      and "run_blocks e flow t (topologicalSort (blocks flow) (connections flow))
             (initial_context flow inputs) w = (Inr ctx', w')"
proof -
  let ?rb = "run_blocks e flow t (topologicalSort (blocks flow) (connections flow))
             (initial_context flow inputs) w"
  obtain x w1 where rb: "?rb = (x, w1)" by (cases ?rb)
  show ?thesis
  proof (cases x)
    case (Inl p)
    obtain msg bid where "p = (msg, bid)" by (cases p)
    then have "r = RunError msg bid" and "w' = w1"
      using assms rb Inl by (simp_all add: runFlowExecution_def Let_def)
    then show ?thesis using rb Inl \<open>p = (msg, bid)\<close> that(1) by simp
  next
    case (Inr ctx')
    then have "r = RunOutputs (build_outputs (fl_outputs flow) ctx')" and "w' = w1"
      using assms rb by (simp_all add: runFlowExecution_def Let_def)
    then show ?thesis using rb Inr that(2) by simp
  qed
qed

lemma runFlowExecution_frame:
  assumes "runFlowExecution e flow inputs t w = (r, w')"
  shows "logs w' = logs w \<and> (t \<longrightarrow> calls w' = calls w) \<and>
         set (dispatched w') \<subseteq> set (dispatched w) \<union> set (topologicalSort (blocks flow) (connections flow))"
  using assms
proof (cases rule: runFlowExecution_cases)
  case (1 msg bid)
  from run_blocks_frame [OF 1(2)] show ?thesis .
next
  case (2 ctx')
  from run_blocks_frame [OF 2(2)] show ?thesis .
qed

lemma load_flow_frame:
  "load_flow e slg w = (fl, w1) \<Longrightarrow>
   calls w1 = calls w \<and> logs w1 = logs w \<and> dispatched w1 = dispatched w"
  by (auto simp: load_flow_def split: option.splits)

lemma executeFlow_test_frame:
  "calls (snd (executeFlow e slg request True w)) = calls w \<and>
   logs (snd (executeFlow e slg request True w)) = logs w"
proof -
  obtain fl w1 where lf: "load_flow e slg w = (fl, w1)" by (cases "load_flow e slg w")
  note fr = load_flow_frame [OF lf]
  show ?thesis
  proof (cases fl)
    case None
    then show ?thesis using lf fr by (simp add: executeFlow_def)
  next
    case (Some flow)
    let ?inputs = "parse_inputs e request"
    show ?thesis
    proof (cases "find (missing_required ?inputs) (fl_inputs flow)")
      case (Some input)
      then show ?thesis using lf fr \<open>fl = Some flow\<close> by (simp add: executeFlow_def Let_def)
    next
      case None
      let ?inputs' = "fold apply_default (fl_inputs flow) ?inputs"
      obtain r w2 where run: "runFlowExecution e flow ?inputs' True w1 = (r, w2)"
        by (cases "runFlowExecution e flow ?inputs' True w1")
      from runFlowExecution_frame [OF run] have "calls w2 = calls w1" "logs w2 = logs w1" by simp_all
      then show ?thesis using lf fr \<open>fl = Some flow\<close> None run
        by (simp add: executeFlow_def Let_def split: run_result.splits)
    qed
  qed
qed

section \<open>Responses and lookups shared by the claims\<close>

text \<open>The error envelope of \<open>errorResponse\<close> for a status, a code and a message.\<close>

definition error_envelope :: "nat \<Rightarrow> string \<Rightarrow> string \<Rightarrow> Response" where
  "error_envelope st code message =
     \<lparr>rs_status = st,
      rs_body = JObj [(''success'', JBool False),
                      (''error'', JObj [(''code'', JStr code), (''message'', JStr message)])]\<rparr>"

text \<open>
  \<open>context.results[sourceBlockId].outputs[sourceOutput]\<close> for a declared output: \<open>None\<close> when
  the lookup misses (the block has no result, or the result has no outputs), else the
  value found, which may be \<open>undefined\<close>.
\<close>

definition source_lookup :: "ExecutionContext \<Rightarrow> FlowOutputDefinition \<Rightarrow> jsvalue option" where
  "source_lookup context decl =
     (case map_of (blockResults context) (sourceBlockId decl) of
        None \<Rightarrow> None
      | Some blockResult \<Rightarrow>
          (case outputs blockResult of
             None \<Rightarrow> None
           | Some bo \<Rightarrow> Some (rec_get bo (sourceOutput decl))))"

lemma project_output_lookup:
  "map_of (project_output context decl acc) k =
     (if k = fo_name decl \<and> source_lookup context decl \<noteq> None
      then source_lookup context decl else map_of acc k)"
  by (simp add: project_output_def source_lookup_def rec_set_def update_conv'
      split: option.splits)

lemma fold_project_key:
  "map_of (fold (project_output context) decls acc) k \<noteq> None \<Longrightarrow>
   map_of acc k \<noteq> None \<or>
   (\<exists>decl \<in> set decls. fo_name decl = k \<and> source_lookup context decl \<noteq> None)"
proof (induction decls arbitrary: acc)
  case Nil
  then show ?case by simp
next
  case (Cons d ds)
  from Cons.prems have "map_of (fold (project_output context) ds (project_output context d acc)) k \<noteq> None"
    by simp
  from Cons.IH [OF this] show ?case
    by (auto simp: project_output_lookup split: if_splits)
qed

lemma build_outputs_key:
  "has_key (build_outputs decls context) k \<Longrightarrow>
   \<exists>decl \<in> set decls. fo_name decl = k \<and> source_lookup context decl \<noteq> None"
  using fold_project_key [of "context" decls "[]" k] by (simp add: has_key_def build_outputs_def)

lemma source_lookup_result:
  "source_lookup context decl \<noteq> None \<Longrightarrow> map_of (blockResults context) (sourceBlockId decl) \<noteq> None"
  by (simp add: source_lookup_def split: option.splits)

text \<open>The answer of the endpoint once the flow is loaded and the inputs pass validation.\<close>

lemma executeFlow_result:
  assumes "load_flow e slg w = (Some flow, w1)"
    and "find (missing_required (parse_inputs e request)) (fl_inputs flow) = None"
    and "runFlowExecution e flow (fold apply_default (fl_inputs flow) (parse_inputs e request))
           isTest w1 = (r, w2)"
  shows "fst (executeFlow e slg request isTest w) =
           (case r of
              RunError message blockId \<Rightarrow> error_envelope 500 ''EXECUTION_ERROR'' message
            | RunOutputs outs \<Rightarrow>
                \<lparr>rs_status = 200,
                 rs_body = JObj [(''success'', JBool True), (''data'', json_of_record outs)]\<rparr>) \<and>
         dispatched (snd (executeFlow e slg request isTest w)) = dispatched w2 \<and>
         calls (snd (executeFlow e slg request isTest w)) = calls w2"
  using assms
  by (cases r)
     (simp_all add: executeFlow_def Let_def errorResponse_def jsonResponse_def error_envelope_def
        logExecution_def)

lemma executeFlow_dispatched:
  assumes "load_flow e slg w = (Some flow, w1)"
    and "find (missing_required (parse_inputs e request)) (fl_inputs flow) = None"
  shows "set (dispatched (snd (executeFlow e slg request isTest w))) \<subseteq>
           set (dispatched w) \<union> set (topologicalSort (blocks flow) (connections flow))"
proof -
  let ?inputs = "fold apply_default (fl_inputs flow) (parse_inputs e request)"
  obtain r w2 where run: "runFlowExecution e flow ?inputs isTest w1 = (r, w2)"
    by (cases "runFlowExecution e flow ?inputs isTest w1")
  from executeFlow_result [OF assms run]
  have "dispatched (snd (executeFlow e slg request isTest w)) = dispatched w2" by simp
  moreover from runFlowExecution_frame [OF run]
  have "set (dispatched w2) \<subseteq> set (dispatched w1) \<union> set (topologicalSort (blocks flow) (connections flow))"
    by simp
  moreover have "dispatched w1 = dispatched w" using load_flow_frame [OF assms(1)] by simp
  ultimately show ?thesis by simp
qed

lemma runFlowExecution_skipped:
  assumes "runFlowExecution e flow inputs isTest w = (r, w')"
    and "b \<notin> set (topologicalSort (blocks flow) (connections flow))"
  shows "(b \<notin> set (dispatched w) \<longrightarrow> b \<notin> set (dispatched w')) \<and>
         (case r of
            RunError message blockId \<Rightarrow> blockId \<noteq> b
          | RunOutputs outs \<Rightarrow>
              (\<forall>k. (\<forall>decl \<in> set (fl_outputs flow). fo_name decl = k \<longrightarrow> sourceBlockId decl = b)
                    \<longrightarrow> \<not> has_key outs k))"
proof -
  have d: "b \<notin> set (dispatched w) \<longrightarrow> b \<notin> set (dispatched w')"
    using runFlowExecution_frame [OF assms(1)] assms(2) by auto
  from assms(1) show ?thesis
  proof (cases rule: runFlowExecution_cases)
    case (1 msg bid)
    from run_blocks_error_block [OF 1(2)] have "bid \<noteq> b" using assms(2) by auto
    then show ?thesis using d 1(1) by simp
  next
    case (2 ctx')
    have none: "map_of (blockResults ctx') b = None"
      using run_blocks_results [OF 2(2) assms(2)] by (simp add: initial_context_def)
    have "\<And>k. (\<forall>decl \<in> set (fl_outputs flow). fo_name decl = k \<longrightarrow> sourceBlockId decl = b)
            \<Longrightarrow> \<not> has_key (build_outputs (fl_outputs flow) ctx') k"
    proof
      fix k
      assume all: "\<forall>decl \<in> set (fl_outputs flow). fo_name decl = k \<longrightarrow> sourceBlockId decl = b"
        and "has_key (build_outputs (fl_outputs flow) ctx') k"
      from build_outputs_key [OF this(2)] obtain decl where
        decl: "decl \<in> set (fl_outputs flow)" "fo_name decl = k" "source_lookup ctx' decl \<noteq> None"
        by blast
      then have "sourceBlockId decl = b" using all by blast
      then show False using source_lookup_result [OF decl(3)] none by simp
    qed
    then show ?thesis using d 2(1) by simp
  qed
qed

section \<open>Example data\<close>

text \<open>
  The flows of the scenarios of the specification. Block \<open>users\<close> is
  \<open>GET https://up/users/{id}\<close> with output \<open>email\<close> at \<open>$.email\<close>; block \<open>notify\<close> is
  \<open>POST https://up/notify\<close> with body input \<open>to\<close> and output \<open>ok\<close> at \<open>$.ok\<close>. The example
  upstream answers \<open>users\<close> with a status and a body given as parameters and \<open>notify\<close> with
  200 and \<open>{"ok": true}\<close>, each after a given delay.
\<close>

definition ex_users :: Block where
  "ex_users =
     \<lparr>bl_type = ''api_call'',
      bl_source = \<lparr>serverUrl = Some ''https://up'', src_path = ''/users/{id}'', src_method = ''GET''\<rparr>,
      bl_inputs = [\<lparr>in_name = ''id'', in_loc = ''path''\<rparr>],
      bl_outputs = [\<lparr>out_name = ''email'', out_path = ''$.email''\<rparr>]\<rparr>"

definition ex_notify :: Block where
  "ex_notify =
     \<lparr>bl_type = ''api_call'',
      bl_source = \<lparr>serverUrl = Some ''https://up'', src_path = ''/notify'', src_method = ''POST''\<rparr>,
      bl_inputs = [\<lparr>in_name = ''to'', in_loc = ''body''\<rparr>],
      bl_outputs = [\<lparr>out_name = ''ok'', out_path = ''$.ok''\<rparr>]\<rparr>"

text \<open>
  Block definition ids are ObjectIds, 24 hexadecimal digits; \<open>new ObjectId\<close> throws on
  anything else. The third id belongs to no stored definition.
\<close>

definition ex_users_id :: string where
  "ex_users_id = ''65a1f0c2b3d4e5f601234567''"

definition ex_notify_id :: string where
  "ex_notify_id = ''65a1f0c2b3d4e5f601234568''"

definition ex_missing_id :: string where
  "ex_missing_id = ''65a1f0c2b3d4e5f6012345ff''"

definition is_hex_char :: "char \<Rightarrow> bool" where
  "is_hex_char c =
     (let n = (of_char c :: nat)
      in (48 \<le> n \<and> n \<le> 57) \<or> (65 \<le> n \<and> n \<le> 70) \<or> (97 \<le> n \<and> n \<le> 102))"

definition ex_find_block :: "string \<Rightarrow> js_exn + Block option" where
  "ex_find_block blockId =
     (if \<not> (length blockId = 24 \<and> list_all is_hex_char blockId)
      then Inl (JsError ''input must be a 24 character hex string, 12 byte Uint8Array, or an integer'')
      else if blockId = ex_users_id then Inr (Some ex_users)
      else if blockId = ex_notify_id then Inr (Some ex_notify)
      else Inr None)"

definition ex_upstream :: "nat \<Rightarrow> nat \<Rightarrow> json \<Rightarrow> http_request list \<Rightarrow> http_request \<Rightarrow> nat \<times> fetch_outcome" where
  "ex_upstream delay st answer history req =
     (if req_method req = ''GET''
      then (delay, FetchResponds \<lparr>resp_status = st, resp_headers = [], resp_json = Inr answer\<rparr>)
      else (delay, FetchResponds \<lparr>resp_status = 200, resp_headers = [],
                                  resp_json = Inr (JObj [(''ok'', JBool True)])\<rparr>))"

text \<open>
  \<open>String(v)\<close> on a JSON value, and \<open>encodeURIComponent\<close> on ASCII text. \<open>JSON.parse\<close> is
  not needed: the example requests are POST requests, whose inputs come from the body.
\<close>

fun show_nat :: "nat \<Rightarrow> string" where
  "show_nat n =
     (if n < 10 then [''0123456789'' ! n]
      else show_nat (n div 10) @ [''0123456789'' ! (n mod 10)])"

declare show_nat.simps [simp del]

fun join_comma :: "string list \<Rightarrow> string" where
  "join_comma [] = []"
| "join_comma [s] = s"
| "join_comma (s # t # ss) = s @ '','' @ join_comma (t # ss)"

fun ex_String :: "json \<Rightarrow> string" where
  "ex_String JNull = ''null''"
| "ex_String (JBool b) = (if b then ''true'' else ''false'')"
| "ex_String (JNum n) = (if n < 0 then ''-'' @ show_nat (nat (- n)) else show_nat (nat n))"
| "ex_String (JStr s) = s"
| "ex_String (JArr xs) = join_comma (map (\<lambda>x. if x = JNull then [] else ex_String x) xs)"
| "ex_String (JObj kvs) = ''[object Object]''"

definition is_unreserved :: "char \<Rightarrow> bool" where
  "is_unreserved c = (is_word_char c \<or> c \<in> set ''-.!~*'' \<or> c = CHR 0x27 \<or> c \<in> set ''()'')"

definition ex_encode :: "string \<Rightarrow> string" where
  "ex_encode s =
     concat (map (\<lambda>c. if is_unreserved c then [c]
                       else [CHR ''%'', ''0123456789ABCDEF'' ! (of_char c div 16),
                             ''0123456789ABCDEF'' ! (of_char c mod 16)]) s)"

definition ex_env :: "Flow list \<Rightarrow> nat \<Rightarrow> nat \<Rightarrow> json \<Rightarrow> env" where
  "ex_env flows delay st answer =
     \<lparr>db_flows = flows,
      db_find_block = ex_find_block,
      upstream = ex_upstream delay st answer,
      abort_error = JsError ''The operation timed out.'',
      json_parse = (\<lambda>s. None),
      js_String = ex_String,
      encodeURIComponent = ex_encode\<rparr>"

definition ex_world :: world where
  "ex_world = \<lparr>flow_cache = [], block_cache = [], calls = [], logs = [], dispatched = []\<rparr>"

definition ex_block :: "string \<Rightarrow> string \<Rightarrow> InputMapping list \<Rightarrow> FlowBlockConfig option \<Rightarrow> FlowBlock" where
  "ex_block instanceId blockId mappings cfg =
     \<lparr>fb_id = instanceId, fb_blockId = blockId, inputMappings = mappings, config = cfg\<rparr>"

definition ex_conn :: "string \<Rightarrow> string \<Rightarrow> Connection" where
  "ex_conn a b = \<lparr>conn_id = a @ ''-'' @ b, fromBlockId = a, toBlockId = b\<rparr>"

definition ex_flow ::
  "FlowBlock list \<Rightarrow> Connection list \<Rightarrow> FlowInputDefinition list \<Rightarrow> FlowOutputDefinition list \<Rightarrow> Flow" where
  "ex_flow blks conns ins outs =
     \<lparr>flow_id = Some ''f1'', slug = ''demo'', version = 2, blocks = blks, connections = conns,
      fl_inputs = ins, fl_outputs = outs,
      fl_config = \<lparr>fc_timeout = Some 5000, fc_parallel = None, fc_errorHandling = None\<rparr>,
      fl_status = Published\<rparr>"

definition ex_post :: "(string \<times> json) list \<Rightarrow> Request" where
  "ex_post kvs = \<lparr>rq_method = ''POST'', rq_query = [], rq_json = Some kvs\<rparr>"

text \<open>Block A maps \<open>id\<close> from the flow input; block B maps \<open>to\<close> from A's output \<open>email\<close>.\<close>

definition ex_A :: "FlowBlockConfig option \<Rightarrow> FlowBlock" where
  "ex_A cfg = ex_block ''A'' ex_users_id [\<lparr>targetInput = ''id'', source = FlowInput (Some ''id'')\<rparr>] cfg"

definition ex_B :: FlowBlock where
  "ex_B = ex_block ''B'' ex_notify_id
            [\<lparr>targetInput = ''to'', source = BlockOutput (Some ''A'') (Some ''email'')\<rparr>] None"

definition ex_chain :: "FlowBlockConfig option \<Rightarrow> Flow" where
  "ex_chain cfg =
     ex_flow [ex_A cfg, ex_B] [ex_conn ''A'' ''B'']
       [\<lparr>fi_name = ''id'', fi_required = True, fi_defaultValue = None\<rparr>]
       [\<lparr>fo_name = ''sent'', sourceBlockId = ''B'', sourceOutput = ''ok''\<rparr>]"

lemmas ex_defs =
  ex_users_def ex_notify_def ex_users_id_def ex_notify_id_def ex_missing_id_def is_hex_char_def
  ex_find_block_def ex_upstream_def show_nat.simps ex_encode_def is_unreserved_def
  is_word_char_def ex_env_def
  ex_world_def ex_block_def ex_conn_def ex_flow_def ex_post_def ex_A_def ex_B_def ex_chain_def

lemmas engine_defs =
  executeFlow_def load_flow_def parse_inputs_def missing_required_def apply_default_def
  logExecution_def runFlowExecution_def initial_context_def build_outputs_def project_output_def
  continue_on_error_def executeBlock_def executeBlock_found_def executeTransform_def
  executeApiCall_def extract_outputs_def failure_result_def build_request_def signal_timeout_def
  add_input_def truthy_def fetch_def response_ok_def exn_message_def resolveInputMappings_def
  resolve_mapping_def jsonResponse_def errorResponse_def json_of_record_def rec_get_def
  rec_set_def has_key_def

lemmas path_defs =
  extractJsonPath_def strip_root_def step_part_def match_array_index_def is_word_char_def
  is_digit_char_def parseInt10_def arr_index_def canonical_index_def

lemmas topo_defs =
  topologicalSort_def init_block_def add_connection_def zero_keys_def successors_def


lemma ex_chain_happy:
  "fst (executeFlow (ex_env [ex_chain None] 10 200 (JObj [(''email'', JStr ''u@x'')])) ''demo''
          (ex_post [(''id'', JNum 42)]) False ex_world) =
   \<lparr>rs_status = 200, rs_body = JObj [(''success'', JBool True), (''data'', JObj [(''sent'', JBool True)])]\<rparr>"
  by (simp add: ex_defs engine_defs path_defs topo_defs Let_def)

section \<open>C1: a flow with a cycle\<close>

text \<open>
  C1, counterexample. Blocks C, A and B with the connections from A to B and from B to A.
  The endpoint answers 200, not 400, and block C, which is not on the cycle, is dispatched
  and issues an upstream request. With A and B alone (scenario 4 of the specification) the
  answer is 200 with empty data.
\<close>

definition ex_cycle :: "FlowBlock list \<Rightarrow> Flow" where
  "ex_cycle others =
     ex_flow (others @ [ex_A None, ex_B]) [ex_conn ''A'' ''B'', ex_conn ''B'' ''A''] []
       [\<lparr>fo_name = ''sent'', sourceBlockId = ''B'', sourceOutput = ''ok''\<rparr>]"

theorem C1_counterexample:
  "rs_status (fst (executeFlow (ex_env [ex_cycle [ex_block ''C'' ex_users_id [] None]] 10 200 JNull)
                     ''demo'' (ex_post []) False ex_world)) = 200 \<and>
   map req_url (calls (snd (executeFlow (ex_env [ex_cycle [ex_block ''C'' ex_users_id [] None]] 10 200 JNull)
                     ''demo'' (ex_post []) False ex_world))) = [''https://up/users/{id}''] \<and>
   fst (executeFlow (ex_env [ex_cycle []] 10 200 JNull) ''demo'' (ex_post []) False ex_world) =
     \<lparr>rs_status = 200, rs_body = JObj [(''success'', JBool True), (''data'', JObj [])]\<rparr>"
  by (simp add: ex_cycle_def ex_defs engine_defs path_defs topo_defs Let_def)

text \<open>
  C1, amended. There is no cycle check. A block on a cycle of the connection graph is not
  in the execution order, so no run dispatches it; the other blocks run as usual. Once the
  flow is loaded and the inputs pass validation the endpoint answers 200 with the
  projected outputs, or 500 with the code \<open>EXECUTION_ERROR\<close> when a dispatched block stops
  the run: never 400, and never the code \<open>FLOW_INVALID\<close>.
\<close>

theorem C1_cycle_not_rejected:
  assumes "load_flow e slg w = (Some flow, w1)"
    and "find (missing_required (parse_inputs e request)) (fl_inputs flow) = None"
    and "(n, n) \<in> (edges (connections flow))\<^sup>+"
  shows "n \<notin> set (topologicalSort (blocks flow) (connections flow)) \<and>
         (n \<notin> set (dispatched w) \<longrightarrow>
            n \<notin> set (dispatched (snd (executeFlow e slg request isTest w)))) \<and>
         ((\<exists>outs. fst (executeFlow e slg request isTest w) =
                    \<lparr>rs_status = 200,
                     rs_body = JObj [(''success'', JBool True), (''data'', json_of_record outs)]\<rparr>) \<or>
          (\<exists>message. fst (executeFlow e slg request isTest w) =
                    error_envelope 500 ''EXECUTION_ERROR'' message))"
proof -
  let ?inputs = "fold apply_default (fl_inputs flow) (parse_inputs e request)"
  have n: "n \<notin> set (topologicalSort (blocks flow) (connections flow))"
    by (rule cycle_not_emitted [OF assms(3)])
  have d: "n \<notin> set (dispatched w) \<longrightarrow> n \<notin> set (dispatched (snd (executeFlow e slg request isTest w)))"
    using executeFlow_dispatched [OF assms(1,2), of isTest] n by auto
  obtain r w2 where run: "runFlowExecution e flow ?inputs isTest w1 = (r, w2)"
    by (cases "runFlowExecution e flow ?inputs isTest w1")
  from executeFlow_result [OF assms(1,2) run]
  have "(\<exists>outs. fst (executeFlow e slg request isTest w) =
                    \<lparr>rs_status = 200,
                     rs_body = JObj [(''success'', JBool True), (''data'', json_of_record outs)]\<rparr>) \<or>
          (\<exists>message. fst (executeFlow e slg request isTest w) =
                    error_envelope 500 ''EXECUTION_ERROR'' message)"
    by (cases r) auto
  then show ?thesis using n d by blast
qed

theorem C1_cycle_not_rejected_witness:
  "''A'' \<notin> set (topologicalSort (blocks (ex_cycle [ex_block ''C'' ex_users_id [] None]))
                  (connections (ex_cycle [ex_block ''C'' ex_users_id [] None]))) \<and>
   ''A'' \<notin> set (dispatched (snd (executeFlow (ex_env [ex_cycle [ex_block ''C'' ex_users_id [] None]] 10 200 JNull)
                                   ''demo'' (ex_post []) False ex_world)))"
proof -
  let ?flow = "ex_cycle [ex_block ''C'' ex_users_id [] None]"
  let ?e = "ex_env [?flow] 10 200 JNull"
  have a: "load_flow ?e ''demo'' ex_world = (Some ?flow, ex_world\<lparr>flow_cache := [(''demo'', ?flow)]\<rparr>)"
    by (simp add: load_flow_def ex_env_def ex_world_def ex_cycle_def ex_flow_def)
  have b: "find (missing_required (parse_inputs ?e (ex_post []))) (fl_inputs ?flow) = None"
    by (simp add: ex_cycle_def ex_flow_def)
  have ab: "(''A'', ''B'') \<in> edges (connections ?flow)"
    and ba: "(''B'', ''A'') \<in> edges (connections ?flow)"
    by (simp_all add: edges_def ex_cycle_def ex_flow_def ex_conn_def)
  have c: "(''A'', ''A'') \<in> (edges (connections ?flow))\<^sup>+"
    using ab ba by (rule trancl_into_trancl [OF r_into_trancl])
  have d: "''A'' \<notin> set (dispatched ex_world)" by (simp add: ex_world_def)
  from C1_cycle_not_rejected [OF a b c, of False] d show ?thesis by blast
qed

section \<open>C2: block failures\<close>

text \<open>
  What holds: a response outside 2xx gives a result with status failure, and a result that
  carries an error stops the run at once, naming the block, unless the instance has
  \<open>continueOnError\<close>.
\<close>

lemma non_2xx_is_failure:
  assumes "fetch e (calls w) (build_request e block inputs cfg) = FetchResponds response"
    and "\<not> response_ok (resp_status response)"
  shows "status (fst (executeApiCall e block inputs cfg w)) = Failure"
  using assms
  by (cases "resp_json response") (simp_all add: executeApiCall_def failure_result_def Let_def)

lemma error_result_aborts:
  assumes "find (\<lambda>b. fb_id b = blockId) (blocks flow) = Some flowBlock"
    and "executeBlock e (fb_blockId flowBlock) (resolveInputMappings (inputMappings flowBlock) ctx)
           (config flowBlock) isTest (w\<lparr>dispatched := dispatched w @ [blockId]\<rparr>) = (Inr r, w')"
    and "error r = Some err" and "\<not> continue_on_error flowBlock"
  shows "run_blocks e flow isTest (blockId # rest) ctx w = (Inl (err_message err, blockId), w') \<and>
         dispatched w' = dispatched w @ [blockId]"
  using assms executeBlock_frame [OF assms(2)] by (simp add: Let_def)

text \<open>
  C2, the failing input. Blocks A and B with the connection from A to B, no
  \<open>continueOnError\<close>; the upstream answers A with 500 and the body \<open>{"error": "boom"}\<close>. A's
  result has status failure but no error, the test after the dispatch looks at the error
  only: B is dispatched, two upstream requests are issued, and the endpoint answers 200.
\<close>

theorem C2_non_2xx_failure_not_aborted:
  "status (fst (executeApiCall (ex_env [ex_chain None] 10 500 (JObj [(''error'', JStr ''boom'')]))
                  ex_users [(''id'', Some (JNum 42))] None ex_world)) = Failure \<and>
   error (fst (executeApiCall (ex_env [ex_chain None] 10 500 (JObj [(''error'', JStr ''boom'')]))
                 ex_users [(''id'', Some (JNum 42))] None ex_world)) = None \<and>
   dispatched (snd (executeFlow (ex_env [ex_chain None] 10 500 (JObj [(''error'', JStr ''boom'')]))
                      ''demo'' (ex_post [(''id'', JNum 42)]) False ex_world)) = [''A'', ''B''] \<and>
   map req_url (calls (snd (executeFlow (ex_env [ex_chain None] 10 500 (JObj [(''error'', JStr ''boom'')]))
                      ''demo'' (ex_post [(''id'', JNum 42)]) False ex_world))) =
     [''https://up/users/42'', ''https://up/notify''] \<and>
   fst (executeFlow (ex_env [ex_chain None] 10 500 (JObj [(''error'', JStr ''boom'')]))
          ''demo'' (ex_post [(''id'', JNum 42)]) False ex_world) =
     \<lparr>rs_status = 200,
      rs_body = JObj [(''success'', JBool True), (''data'', JObj [(''sent'', JBool True)])]\<rparr>"
  by (simp add: ex_defs engine_defs path_defs topo_defs Let_def)

section \<open>C3: resolving a block output\<close>










section \<open>C4: a required input is missing\<close>




section \<open>C5: retries\<close>







section \<open>C6: timeouts\<close>







section \<open>C7: test mode\<close>

text \<open>The synthetic result of a test dispatch, in the words of the specification.\<close>

definition spec_test_result :: "string \<Rightarrow> BlockExecutionResult" where
  "spec_test_result blockId =
     \<lparr>status = Success,
      outputs = Some [(''_test'', Some (JBool True)), (''blockId'', Some (JStr blockId))],
      rawResponse = None, error = None\<rparr>"

text \<open>
  C7, counterexample. In test mode a block instance whose definition is neither cached nor
  stored does not get the synthetic success: the lookup comes first and the dispatch
  returns the failure \<open>Block not found\<close>, and the test invocation of a flow with such a block
  answers 500.
\<close>

theorem C7_counterexample:
  "fst (executeBlock (ex_env [] 10 200 JNull) ex_missing_id [] None True ex_world) =
     Inr \<lparr>status = Failure, outputs = None, rawResponse = None,
          error = Some \<lparr>err_message = (''Block not found: '' @ ex_missing_id), err_code = None\<rparr>\<rparr> \<and>
   fst (executeBlock (ex_env [] 10 200 JNull) ex_missing_id [] None True ex_world) \<noteq>
     Inr (spec_test_result ex_missing_id) \<and>
   rs_status (fst (executeFlow (ex_env [ex_flow [ex_block ''G'' ex_missing_id [] None] [] [] []] 10 200 JNull)
                     ''demo'' (ex_post []) True ex_world)) = 500"
  by (simp add: ex_defs engine_defs topo_defs spec_test_result_def Let_def)

text \<open>
  C7, amended. In test mode every block dispatch whose block definition is found (in the
  cache or in the store) returns the synthetic success
  \<open>{status: success, outputs: {_test: true, blockId}}\<close>, whatever the instance's config
  and the block's type; a dispatch whose definition is missing returns the failure
  \<open>Block not found\<close> as outside test mode. No dispatch issues an upstream request, and a
  test invocation of the endpoint issues no upstream request and inserts no document into
  \<open>execution_logs\<close>.
\<close>

theorem C7_test_mode:
  "(map_of (block_cache w) blockId = Some block \<or>
    (map_of (block_cache w) blockId = None \<and> db_find_block e blockId = Inr (Some block)) \<longrightarrow>
      fst (executeBlock e blockId inputs cfg True w) = Inr (spec_test_result blockId)) \<and>
   (map_of (block_cache w) blockId = None \<and> db_find_block e blockId = Inr None \<longrightarrow>
      fst (executeBlock e blockId inputs cfg True w) =
        Inr (failure_result (''Block not found: '' @ blockId))) \<and>
   calls (snd (executeBlock e blockId inputs cfg True w)) = calls w \<and>
   logs (snd (executeBlock e blockId inputs cfg True w)) = logs w \<and>
   calls (snd (executeFlow e slg request True w)) = calls w \<and>
   logs (snd (executeFlow e slg request True w)) = logs w"
proof -
  obtain r w' where ex: "executeBlock e blockId inputs cfg True w = (r, w')"
    by (cases "executeBlock e blockId inputs cfg True w")
  from executeBlock_frame [OF ex] have "calls w' = calls w" "logs w' = logs w" by simp_all
  then have fr: "calls (snd (executeBlock e blockId inputs cfg True w)) = calls w"
    "logs (snd (executeBlock e blockId inputs cfg True w)) = logs w"
    using ex by simp_all
  have a: "map_of (block_cache w) blockId = Some block \<or>
      (map_of (block_cache w) blockId = None \<and> db_find_block e blockId = Inr (Some block)) \<longrightarrow>
      fst (executeBlock e blockId inputs cfg True w) = Inr (spec_test_result blockId)"
    by (auto simp: executeBlock_def executeBlock_found_def spec_test_result_def)
  have b: "map_of (block_cache w) blockId = None \<and> db_find_block e blockId = Inr None \<longrightarrow>
      fst (executeBlock e blockId inputs cfg True w) =
        Inr (failure_result (''Block not found: '' @ blockId))"
    by (simp add: executeBlock_def)
  show ?thesis using a b fr executeFlow_test_frame [of e slg request w] by blast
qed

theorem C7_test_mode_witness:
  "fst (executeBlock (ex_env [] 10 200 JNull) ex_users_id [] None True ex_world) =
     Inr \<lparr>status = Success,
          outputs = Some [(''_test'', Some (JBool True)), (''blockId'', Some (JStr ex_users_id))],
          rawResponse = None, error = None\<rparr> \<and>
   calls (snd (executeFlow (ex_env [ex_chain None] 10 200 JNull) ''demo''
                 (ex_post [(''id'', JNum 42)]) True ex_world)) = [] \<and>
   logs (snd (executeFlow (ex_env [ex_chain None] 10 200 JNull) ''demo''
                (ex_post [(''id'', JNum 42)]) True ex_world)) = []"
proof -
  have l: "map_of (block_cache ex_world) ex_users_id = None \<and>
           db_find_block (ex_env [] 10 200 JNull) ex_users_id = Inr (Some ex_users)"
    by (simp add: ex_defs)
  from C7_test_mode [of ex_world ex_users_id ex_users "ex_env [] 10 200 JNull" "[]" None]
  have "fst (executeBlock (ex_env [] 10 200 JNull) ex_users_id [] None True ex_world) =
          Inr (spec_test_result ex_users_id)"
    using l by blast
  moreover from C7_test_mode [of ex_world _ _ "ex_env [ex_chain None] 10 200 JNull" _ _ "''demo''"
      "ex_post [(''id'', JNum 42)]"]
  have "calls (snd (executeFlow (ex_env [ex_chain None] 10 200 JNull) ''demo''
                 (ex_post [(''id'', JNum 42)]) True ex_world)) = calls ex_world"
    and "logs (snd (executeFlow (ex_env [ex_chain None] 10 200 JNull) ''demo''
                (ex_post [(''id'', JNum 42)]) True ex_world)) = logs ex_world"
    by blast+
  ultimately show ?thesis by (simp add: spec_test_result_def ex_world_def)
qed

section \<open>C8: output projection\<close>









section \<open>C9: projection paths\<close>























section \<open>C10: a connection from a block that does not exist\<close>

text \<open>
  C10, counterexample. The connection from \<open>X\<close> to \<open>B\<close> has no source block, so \<open>B\<close> is
  skipped; the other block, \<open>G\<close>, refers to a block definition that does not exist. The
  run stops at \<open>G\<close> and the endpoint answers 500, not a success response.
\<close>

definition ex_dangling :: "FlowBlock \<Rightarrow> Flow" where
  "ex_dangling other =
     ex_flow [other, ex_B] [ex_conn ''X'' ''B''] []
       [\<lparr>fo_name = ''sent'', sourceBlockId = ''B'', sourceOutput = ''ok''\<rparr>]"

theorem C10_counterexample:
  "fst (executeFlow (ex_env [ex_dangling (ex_block ''G'' ex_missing_id [] None)] 10 200 JNull) ''demo''
          (ex_post []) False ex_world) =
     error_envelope 500 ''EXECUTION_ERROR'' (''Block not found: '' @ ex_missing_id) \<and>
   ex_conn ''X'' ''B'' \<in> set (connections (ex_dangling (ex_block ''G'' ex_missing_id [] None))) \<and>
   fromBlockId (ex_conn ''X'' ''B'') \<notin>
     fb_id ` set (blocks (ex_dangling (ex_block ''G'' ex_missing_id [] None)))"
  by (simp add: ex_dangling_def ex_defs engine_defs topo_defs error_envelope_def Let_def)

text \<open>
  C10, amended. Let a connection of the flow start at an id that is no block of the flow,
  and let \<open>b\<close> be its target or any block reachable from the target along connections. Then
  \<open>b\<close> is not in the execution order and no run dispatches it. The skip raises no error of
  its own: a run either stops with the error of a block that was dispatched, which is not
  \<open>b\<close>, and the endpoint answers 500 EXECUTION_ERROR, or it reaches projection and the
  endpoint answers 200 with \<open>success: true\<close>, where a name all of whose declared outputs
  are sourced from \<open>b\<close> is absent from the data.
\<close>

theorem C10_dangling_connection:
  assumes "c \<in> set (connections flow)"
    and "fromBlockId c \<notin> fb_id ` set (blocks flow)"
    and "(toBlockId c, b) \<in> (edges (connections flow))\<^sup>*"
  shows "b \<notin> set (topologicalSort (blocks flow) (connections flow)) \<and>
         (\<forall>e inputs isTest w r w'.
            runFlowExecution e flow inputs isTest w = (r, w') \<longrightarrow>
              (b \<notin> set (dispatched w) \<longrightarrow> b \<notin> set (dispatched w')) \<and>
              (case r of
                 RunError message blockId \<Rightarrow> blockId \<noteq> b
               | RunOutputs outs \<Rightarrow>
                   (\<forall>k. (\<forall>decl \<in> set (fl_outputs flow). fo_name decl = k \<longrightarrow> sourceBlockId decl = b)
                         \<longrightarrow> \<not> has_key outs k))) \<and>
         (\<forall>e slg request isTest w w1 r w2.
            load_flow e slg w = (Some flow, w1) \<and>
            find (missing_required (parse_inputs e request)) (fl_inputs flow) = None \<and>
            runFlowExecution e flow (fold apply_default (fl_inputs flow) (parse_inputs e request))
              isTest w1 = (r, w2) \<longrightarrow>
              fst (executeFlow e slg request isTest w) =
                (case r of
                   RunError message blockId \<Rightarrow> error_envelope 500 ''EXECUTION_ERROR'' message
                 | RunOutputs outs \<Rightarrow>
                     \<lparr>rs_status = 200,
                      rs_body = JObj [(''success'', JBool True), (''data'', json_of_record outs)]\<rparr>))"
proof -
  have t: "toBlockId c \<notin> set (topologicalSort (blocks flow) (connections flow))"
    using dangling_not_emitted [OF assms(1)] assms(2) by (simp add: block_ids_def)
  have b: "b \<notin> set (topologicalSort (blocks flow) (connections flow))"
    by (rule downstream_not_emitted [OF assms(3) t])
  show ?thesis
  proof (intro conjI allI impI)
    show "b \<notin> set (topologicalSort (blocks flow) (connections flow))" by (rule b)
  next
    fix e inputs isTest w r w'
    assume run: "runFlowExecution e flow inputs isTest w = (r, w')"
    assume "b \<notin> set (dispatched w)"
    then show "b \<notin> set (dispatched w')" using runFlowExecution_skipped [OF run b] by blast
  next
    fix e inputs isTest w r w'
    assume run: "runFlowExecution e flow inputs isTest w = (r, w')"
    show "case r of
            RunError message blockId \<Rightarrow> blockId \<noteq> b
          | RunOutputs outs \<Rightarrow>
              (\<forall>k. (\<forall>decl \<in> set (fl_outputs flow). fo_name decl = k \<longrightarrow> sourceBlockId decl = b)
                    \<longrightarrow> \<not> has_key outs k)"
      using runFlowExecution_skipped [OF run b] by blast
  next
    fix e slg request isTest w w1 r w2
    assume a: "load_flow e slg w = (Some flow, w1) \<and>
            find (missing_required (parse_inputs e request)) (fl_inputs flow) = None \<and>
            runFlowExecution e flow (fold apply_default (fl_inputs flow) (parse_inputs e request))
              isTest w1 = (r, w2)"
    then show "fst (executeFlow e slg request isTest w) =
                (case r of
                   RunError message blockId \<Rightarrow> error_envelope 500 ''EXECUTION_ERROR'' message
                 | RunOutputs outs \<Rightarrow>
                     \<lparr>rs_status = 200,
                      rs_body = JObj [(''success'', JBool True), (''data'', json_of_record outs)]\<rparr>)"
      using executeFlow_result [of e slg w flow w1 request isTest r w2] by blast
  qed
qed

text \<open>
  The witness: block A runs, block B hangs on the connection from \<open>X\<close>. The order is
  \<open>[A]\<close>, B is not dispatched, and the answer is 200 with empty data: the output \<open>sent\<close>,
  sourced from B, is absent.
\<close>

theorem C10_dangling_connection_witness:
  "''B'' \<notin> set (topologicalSort (blocks (ex_dangling (ex_A None))) (connections (ex_dangling (ex_A None)))) \<and>
   dispatched (snd (runFlowExecution (ex_env [] 10 200 JNull) (ex_dangling (ex_A None)) [] False ex_world)) =
     [''A''] \<and>
   fst (runFlowExecution (ex_env [] 10 200 JNull) (ex_dangling (ex_A None)) [] False ex_world) =
     RunOutputs []"
proof -
  let ?flow = "ex_dangling (ex_A None)"
  let ?c = "ex_conn ''X'' ''B''"
  have a: "?c \<in> set (connections ?flow)" by (simp add: ex_dangling_def ex_flow_def)
  have b: "fromBlockId ?c \<notin> fb_id ` set (blocks ?flow)"
    by (simp add: ex_dangling_def ex_flow_def ex_conn_def ex_A_def ex_B_def ex_block_def)
  have c: "(toBlockId ?c, ''B'') \<in> (edges (connections ?flow))\<^sup>*" by (simp add: ex_conn_def)
  have "''B'' \<notin> set (topologicalSort (blocks ?flow) (connections ?flow))"
    using C10_dangling_connection [OF a b c] by blast
  moreover have "dispatched (snd (runFlowExecution (ex_env [] 10 200 JNull) ?flow [] False ex_world)) = [''A'']"
    and "fst (runFlowExecution (ex_env [] 10 200 JNull) ?flow [] False ex_world) = RunOutputs []"
    by (simp_all add: ex_dangling_def ex_defs engine_defs path_defs topo_defs Let_def)
  ultimately show ?thesis by simp
qed

end
